theory Spec2Isabelle
  imports Main "HOL-Library.Word"
begin

section \<open>JavaScript strings\<close>

text \<open>
  A JavaScript string is a sequence of 16-bit code units. Literals of the source are
  written with \<open>js\<close>, which maps each (Latin-1) character of an Isabelle string to the
  code unit of the same number.
\<close>

type_synonym jschar = "16 word"
type_synonym jsstring = "jschar list"

definition js :: "string \<Rightarrow> jsstring" where
  "js s = map of_char s"

definition LF :: jschar where
  "LF = 0x0A"

definition NBSP :: jschar where
  "NBSP = 0xA0"

definition SPACE :: jschar where
  "SPACE = 0x20"

text \<open>
  The characters that \<open>String.prototype.trim\<close> strips and that \<open>\s\<close> matches in a regular
  expression: ECMAScript's WhiteSpace (TAB, VT, FF, SP, NBSP, ZWNBSP and the category Zs)
  and LineTerminator (LF, CR, LS, PS).
\<close>

definition isWhiteSpace :: "jschar \<Rightarrow> bool" where
  "isWhiteSpace c \<longleftrightarrow>
     c = 0x09 \<or> c = 0x0A \<or> c = 0x0B \<or> c = 0x0C \<or> c = 0x0D \<or> c = 0x20 \<or> c = 0xA0 \<or>
     c = 0x1680 \<or> (0x2000 \<le> c \<and> c \<le> 0x200A) \<or> c = 0x2028 \<or> c = 0x2029 \<or>
     c = 0x202F \<or> c = 0x205F \<or> c = 0x3000 \<or> c = 0xFEFF"

text \<open>\<open>s.trim()\<close>\<close>

definition trim :: "jsstring \<Rightarrow> jsstring" where
  "trim s = rev (dropWhile isWhiteSpace (rev (dropWhile isWhiteSpace s)))"

text \<open>
  \<open>s.split(/\n/)\<close>: \<open>acc\<close> holds, reversed, the characters read since the last match.
  The empty string splits into one empty piece.
\<close>

fun splitNL :: "jsstring \<Rightarrow> jsstring \<Rightarrow> jsstring list" where
  "splitNL acc [] = [rev acc]"
| "splitNL acc (c # cs) =
     (if c = LF then rev acc # splitNL [] cs else splitNL (c # acc) cs)"

text \<open>
  One match of \<open>/\n\s*\n/\<close> anchored at the head of \<open>s\<close>; the result is what follows the
  match. After the first newline \<open>\s*\<close> takes the whole run of whitespace and gives
  characters back until a newline follows, so the match ends behind the last newline of
  that run.
\<close>

definition matchSeparator :: "jsstring \<Rightarrow> jsstring option" where
  "matchSeparator s =
     (case s of
        [] \<Rightarrow> None
      | c # cs \<Rightarrow>
          if c \<noteq> LF then None
          else let run = takeWhile isWhiteSpace cs in
            if LF \<in> set run
            then Some (drop (length run - length (takeWhile (\<lambda>x. x \<noteq> LF) (rev run))) cs)
            else None)"

lemma matchSeparator_shorter:
  "matchSeparator s = Some rest \<Longrightarrow> length rest < length s"
  by (auto simp: matchSeparator_def Let_def split: list.splits if_splits)

text \<open>
  \<open>text.split(/\n\s*\n/)\<close>: the matches are looked for from left to right, each search
  starting behind the previous match.
\<close>

function splitParagraphs :: "jsstring \<Rightarrow> jsstring \<Rightarrow> jsstring list" where
  "splitParagraphs acc [] = [rev acc]"
| "splitParagraphs acc (c # cs) =
     (case matchSeparator (c # cs) of
        Some rest \<Rightarrow> rev acc # splitParagraphs [] rest
      | None \<Rightarrow> splitParagraphs (c # acc) cs)"
  by pat_completeness auto
termination
  by (relation "measure (\<lambda>(acc, s). length s)") (auto dest: matchSeparator_shorter)

text \<open>\<open>xs.join(sep)\<close>\<close>

fun joinWith :: "jsstring \<Rightarrow> jsstring list \<Rightarrow> jsstring" where
  "joinWith sep [] = []"
| "joinWith sep [x] = x"
| "joinWith sep (x # y # ys) = x @ sep @ joinWith sep (y # ys)"

section \<open>Plain text to card HTML\<close>

text \<open>The values the two functions are called with: a string, \<open>null\<close> or \<open>undefined\<close>.\<close>

datatype jsvalue = Undefined | Null | Str jsstring

text \<open>\<open>!v\<close>: of these values, \<open>undefined\<close>, \<open>null\<close> and the empty string are falsy.\<close>

fun falsy :: "jsvalue \<Rightarrow> bool" where
  "falsy Undefined = True"
| "falsy Null = True"
| "falsy (Str s) = (s = [])"

text \<open>What \<open>textToCardHTMLs\<close> returns: the string \<open>''\<close> or an array of strings.\<close>

datatype cardHTMLs = RString jsstring | RArray "jsstring list"

text \<open>
  \<open>textToCardHTMLs\<close>. \<open>cleanedLines\<close> and \<open>toCardHTML\<close> are the body of the last \<open>map\<close>:
  the lines of a section, trimmed, the empty ones left out, joined with \<open><br>\<close> inside
  the paragraph element. The guard \<open>if (!text) return ''\<close> takes \<open>undefined\<close>, \<open>null\<close>
  and the empty string.
\<close>

definition cleanedLines :: "jsstring \<Rightarrow> jsstring list" where
  "cleanedLines section =
     filter (\<lambda>line. length line > 0) (map trim (splitNL [] section))"

definition toCardHTML :: "jsstring \<Rightarrow> jsstring" where
  "toCardHTML section =
     js ''<p style=\"text-align:center;\">'' @ joinWith (js ''<br>'') (cleanedLines section)
       @ js ''</p>''"

fun textToCardHTMLs :: "jsvalue \<Rightarrow> cardHTMLs" where
  "textToCardHTMLs (Str text) =
     (if text = [] then RString []
      else RArray (map toCardHTML
             (filter (\<lambda>section. length section > 0)
                (map trim (splitParagraphs [] text)))))"
| "textToCardHTMLs v = RString []"

section \<open>The document tree\<close>

text \<open>
  The part of the DOM that \<open>htmlToText\<close> reads and changes: text nodes, comment nodes and
  elements with their tag name and children. Attributes are left out: the code selects
  elements by tag name only and reads nothing but text content.
\<close>

datatype node = Text jsstring | Comment jsstring | Element jsstring "node list"

text \<open>
  \<open>element.textContent\<close> of an element with the given children: the data of all text
  nodes below it, in tree order.
\<close>

fun descendantText :: "node \<Rightarrow> jsstring" where
  "descendantText (Text d) = d"
| "descendantText (Comment d) = []"
| "descendantText (Element name children) = concat (map descendantText children)"

definition textContent :: "node list \<Rightarrow> jsstring" where
  "textContent children = concat (map descendantText children)"

text \<open>
  \<open>element.querySelectorAll('br').forEach((br) => br.replaceWith('\n'))\<close>, on the
  children of \<open>element\<close>: every \<open>br\<close> element below it becomes a text node.
\<close>

fun replaceBr :: "node \<Rightarrow> node" where
  "replaceBr (Element name children) =
     (if name = js ''br'' then Text [LF] else Element name (map replaceBr children))"
| "replaceBr n = n"

text \<open>
  \<open>element.querySelectorAll('p').forEach((p) => { if (p.nextSibling) {
  p.insertAdjacentText('afterend', '\n'); } })\<close>. A text node put behind one paragraph
  changes for no other paragraph whether it has a next sibling, so every paragraph is
  judged on the tree as it was.
\<close>

fun isParagraph :: "node \<Rightarrow> bool" where
  "isParagraph (Element name children) = (name = js ''p'')"
| "isParagraph n = False"

fun insertAfterP :: "node list \<Rightarrow> node list"
  and insertBelow :: "node \<Rightarrow> node" where
  "insertAfterP [] = []"
| "insertAfterP [n] = [insertBelow n]"
| "insertAfterP (n # m # ns) =
     (if isParagraph n then insertBelow n # Text [LF] # insertAfterP (m # ns)
      else insertBelow n # insertAfterP (m # ns))"
| "insertBelow (Element name children) = Element name (insertAfterP children)"
| "insertBelow (Text d) = Text d"
| "insertBelow (Comment d) = Comment d"

definition processLineBreaks :: "node list \<Rightarrow> node list" where
  "processLineBreaks children = insertAfterP (map replaceBr children)"

text \<open>
  \<open>removeEmptyParagraphs\<close>. The paragraphs are visited in tree order, so each one is
  judged before anything below it is removed; a paragraph inside a removed one is taken
  out of a subtree that is no longer part of the result.
\<close>

definition isEmptyContent :: "jsstring \<Rightarrow> bool" where
  "isEmptyContent t = (let content = trim t in content = [] \<or> content = [NBSP])"

fun removeEmptyParagraphs :: "node list \<Rightarrow> node list" where
  "removeEmptyParagraphs [] = []"
| "removeEmptyParagraphs (Element name children # ns) =
     (if name = js ''p'' \<and> isEmptyContent (textContent children)
      then removeEmptyParagraphs ns
      else Element name (removeEmptyParagraphs children) # removeEmptyParagraphs ns)"
| "removeEmptyParagraphs (n # ns) = n # removeEmptyParagraphs ns"

text \<open>\<open>cleanupText\<close>: \<open>.replace(/\u00A0/g, ' ')\<close>, the collapse of newlines and the trim.\<close>

definition replaceNbsp :: "jsstring \<Rightarrow> jsstring" where
  "replaceNbsp t = map (\<lambda>c. if c = NBSP then SPACE else c) t"

text \<open>
  \<open>.replace(/\n{2,}/g, '\n')\<close>: a newline and all the newlines that follow it at once
  leave one newline (a newline alone is not matched, and stays as it is).
\<close>

function collapseNewlines :: "jsstring \<Rightarrow> jsstring" where
  "collapseNewlines [] = []"
| "collapseNewlines (c # cs) =
     (if c = LF then LF # collapseNewlines (dropWhile (\<lambda>x. x = LF) cs)
      else c # collapseNewlines cs)"
  by pat_completeness auto
termination
  by (relation "measure length") (auto simp: less_Suc_eq_le length_dropWhile_le)

definition cleanupText :: "jsstring \<Rightarrow> jsstring" where
  "cleanupText t = trim (collapseNewlines (replaceNbsp t))"

text \<open>
  What the browser does for \<open>htmlToText\<close>: \<open>parseFragment\<close> gives the children of
  \<open>tempDiv\<close> after \<open>tempDiv.innerHTML = html\<close>, and \<open>innerText\<close> reads
  \<open>tempDiv.innerText\<close>, \<open>None\<close> where the property is undefined.
\<close>

record host =
  parseFragment :: "jsstring \<Rightarrow> node list"
  innerText :: "node list \<Rightarrow> jsstring option"

text \<open>\<open>tempDiv.innerText || tempDiv.textContent || ''\<close>\<close>

definition extractText :: "host \<Rightarrow> node list \<Rightarrow> jsstring" where
  "extractText h tempDiv =
     (case innerText h tempDiv of
        Some t \<Rightarrow> if t \<noteq> [] then t else textContent tempDiv
      | None \<Rightarrow> textContent tempDiv)"

text \<open>
  \<open>htmlToText\<close>. The guard \<open>if (!html) return ''\<close> takes \<open>undefined\<close>, \<open>null\<close> and the
  empty string; every other string is parsed into \<open>tempDiv\<close>, whose children go through
  \<open>processLineBreaks\<close> and \<open>removeEmptyParagraphs\<close> before the text is read and cleaned up.
\<close>

fun htmlToText :: "host \<Rightarrow> jsvalue \<Rightarrow> jsstring" where
  "htmlToText h (Str html) =
     (if html = [] then []
      else cleanupText (extractText h
             (removeEmptyParagraphs (processLineBreaks (parseFragment h html)))))"
| "htmlToText h v = []"

section \<open>A model of the browser\<close>

text \<open>
  The parser behind \<open>innerHTML\<close> is the browser's, not the repository's. This is a model of
  it for the markup that cards hold: text, the character references \<open>&nbsp;\<close>, \<open>&amp;\<close>,
  \<open>&lt;\<close> and \<open>&gt;\<close>, start tags with or without attributes, and end tags. Tag names are
  lower-cased, the void elements take no children, a \<open>p\<close> start tag closes the \<open>p\<close> that is
  the current element, an end tag that does not close the current element is ignored, and
  the end of the input closes everything.

  Where the model stops: it does not cover comments, other character references, a \<open>>\<close>
  inside an attribute value, a \<open><\<close> that opens no tag, or the characters CR and NUL, which
  the browser's parser rewrites. A stray \<open></p>\<close> is ignored, where the browser puts an empty
  paragraph; the start tag of a block element such as \<open>div\<close> does not close an open \<open>p\<close>,
  and neither does a \<open>p\<close> start tag read while an inline element is open inside the
  paragraph, where the browser closes it in both cases. The properties below that name
  \<open>browser\<close> use markup inside these limits; those that hold for every \<open>host\<close> do not
  depend on the model.
\<close>

datatype token = Characters jsstring | StartTag jsstring | EndTag jsstring

definition namedReferences :: "(jsstring \<times> jschar) list" where
  "namedReferences =
     [(js ''nbsp;'', 0xA0), (js ''amp;'', 0x26), (js ''lt;'', 0x3C), (js ''gt;'', 0x3E)]"

fun matchReference :: "(jsstring \<times> jschar) list \<Rightarrow> jsstring \<Rightarrow> (jschar \<times> nat) option" where
  "matchReference [] cs = None"
| "matchReference ((name, c) # refs) cs =
     (if take (length name) cs = name then Some (c, length name)
      else matchReference refs cs)"

function decodeReferences :: "jsstring \<Rightarrow> jsstring" where
  "decodeReferences [] = []"
| "decodeReferences (c # cs) =
     (if c = 0x26
      then (case matchReference namedReferences cs of
              Some (d, n) \<Rightarrow> d # decodeReferences (drop n cs)
            | None \<Rightarrow> c # decodeReferences cs)
      else c # decodeReferences cs)"
  by pat_completeness auto
termination
  by (relation "measure length") auto

definition asciiLower :: "jschar \<Rightarrow> jschar" where
  "asciiLower c = (if 0x41 \<le> c \<and> c \<le> 0x5A then c + 0x20 else c)"

text \<open>The name of a tag, given what stands between \<open><\<close> (or \<open></\<close>) and \<open>>\<close>.\<close>

definition tagName :: "jsstring \<Rightarrow> jsstring" where
  "tagName tag =
     map asciiLower
       (takeWhile (\<lambda>x. x \<noteq> 0x2F \<and> x \<noteq> 0x09 \<and> x \<noteq> 0x0A \<and> x \<noteq> 0x0C \<and> x \<noteq> 0x20) tag)"

definition tagToken :: "jsstring \<Rightarrow> token" where
  "tagToken tag =
     (case tag of
        [] \<Rightarrow> StartTag []
      | c # cs \<Rightarrow> if c = 0x2F then EndTag (tagName cs) else StartTag (tagName (c # cs)))"

function tokenize :: "jsstring \<Rightarrow> token list" where
  "tokenize [] = []"
| "tokenize (c # cs) =
     (if c = 0x3C
      then tagToken (takeWhile (\<lambda>x. x \<noteq> 0x3E) cs)
             # tokenize (drop 1 (dropWhile (\<lambda>x. x \<noteq> 0x3E) cs))
      else Characters (decodeReferences (c # takeWhile (\<lambda>x. x \<noteq> 0x3C) cs))
             # tokenize (dropWhile (\<lambda>x. x \<noteq> 0x3C) cs))"
  by pat_completeness auto
termination
  by (relation "measure length")
     (auto simp: less_Suc_eq_le length_dropWhile_le intro: le_trans [OF diff_le_self])

definition voidElements :: "jsstring list" where
  "voidElements =
     map js [''area'', ''base'', ''br'', ''col'', ''embed'', ''hr'', ''img'', ''input'',
             ''link'', ''meta'', ''source'', ''track'', ''wbr'']"

text \<open>
  The tree builder. \<open>cur\<close> holds, reversed, the children read so far of the element that
  is open; each frame of the stack is an open element: its name and, reversed, the
  siblings before it.
\<close>

type_synonym frame = "jsstring \<times> node list"

fun closeAll :: "node list \<Rightarrow> frame list \<Rightarrow> node list" where
  "closeAll cur [] = rev cur"
| "closeAll cur ((name, before) # stack) = closeAll (Element name (rev cur) # before) stack"

fun build :: "node list \<Rightarrow> frame list \<Rightarrow> token list \<Rightarrow> node list" where
  "build cur stack [] = closeAll cur stack"
| "build cur stack (Characters d # ts) = build (Text d # cur) stack ts"
| "build cur stack (StartTag name # ts) =
     (if name \<in> set voidElements then build (Element name [] # cur) stack ts
      else case stack of
        (opened, before) # rest \<Rightarrow>
          if name = js ''p'' \<and> opened = js ''p''
          then build [] ((name, Element opened (rev cur) # before) # rest) ts
          else build [] ((name, cur) # stack) ts
      | [] \<Rightarrow> build [] ((name, cur) # stack) ts)"
| "build cur stack (EndTag name # ts) =
     (case stack of
        (opened, before) # rest \<Rightarrow>
          if opened = name then build (Element opened (rev cur) # before) rest ts
          else build cur stack ts
      | [] \<Rightarrow> build cur stack ts)"

definition parseHTML :: "jsstring \<Rightarrow> node list" where
  "parseHTML html = build [] [] (tokenize html)"

text \<open>
  \<open>tempDiv\<close> is never attached to the document, so it is not rendered, and the
  \<open>innerText\<close> of an element that is not rendered is its \<open>textContent\<close>.
\<close>

definition browser :: host where
  "browser = \<lparr> parseFragment = parseHTML, innerText = (\<lambda>children. Some (textContent children)) \<rparr>"

section \<open>Notions used to state the properties\<close>

text \<open>A result without fragments: the string \<open>''\<close> or the array \<open>[]\<close>.\<close>

fun emptyResult :: "cardHTMLs \<Rightarrow> bool" where
  "emptyResult (RString s) = (s = [])"
| "emptyResult (RArray fragments) = (fragments = [])"

text \<open>
  The elements of the returned sequence: those of the array, or the characters of the
  string (the string \<open>''\<close> has none).
\<close>

fun elements :: "cardHTMLs \<Rightarrow> jsstring list" where
  "elements (RString s) = map (\<lambda>c. [c]) s"
| "elements (RArray fragments) = fragments"

text \<open>
  A paragraph element whose inline style centers the text, holding the given lines with a
  line-break element between them.
\<close>

definition centeredParagraph :: "jsstring list \<Rightarrow> jsstring" where
  "centeredParagraph ls =
     js ''<p style=\"text-align:center;\">'' @ joinWith (js ''<br>'') ls @ js ''</p>''"

text \<open>Leading and trailing whitespace, and two newlines in a row.\<close>

fun startsWithWhiteSpace :: "jsstring \<Rightarrow> bool" where
  "startsWithWhiteSpace [] = False"
| "startsWithWhiteSpace (c # cs) = isWhiteSpace c"

definition endsWithWhiteSpace :: "jsstring \<Rightarrow> bool" where
  "endsWithWhiteSpace t = startsWithWhiteSpace (rev t)"

fun hasDoubleNewline :: "jsstring \<Rightarrow> bool" where
  "hasDoubleNewline (a # b # cs) = ((a = LF \<and> b = LF) \<or> hasDoubleNewline (b # cs))"
| "hasDoubleNewline cs = False"

text \<open>A line as a fragment holds it: not empty, trimmed, and without a newline.\<close>

definition cleanLine :: "jsstring \<Rightarrow> bool" where
  "cleanLine l \<longleftrightarrow> l \<noteq> [] \<and> \<not> startsWithWhiteSpace l \<and> \<not> endsWithWhiteSpace l \<and> LF \<notin> set l"

text \<open>The text below a node when every \<open>br\<close> element is read as a newline.\<close>

fun textWithBreaks :: "node \<Rightarrow> jsstring" where
  "textWithBreaks (Text d) = d"
| "textWithBreaks (Comment d) = []"
| "textWithBreaks (Element name children) =
     (if name = js ''br'' then [LF] else concat (map textWithBreaks children))"

text \<open>An element of the given name, at the node or anywhere below it.\<close>

fun hasElement :: "jsstring \<Rightarrow> node \<Rightarrow> bool" where
  "hasElement name (Element n children) = (n = name \<or> list_ex (hasElement name) children)"
| "hasElement name (Text d) = False"
| "hasElement name (Comment d) = False"

fun childNodes :: "node \<Rightarrow> node list" where
  "childNodes (Element name children) = children"
| "childNodes n = []"

text \<open>
  A paragraph element with no paragraph inside it whose text, line breaks read as
  newlines, is not empty in the sense of \<open>removeEmptyParagraphs\<close>.
\<close>

definition plainParagraph :: "node \<Rightarrow> bool" where
  "plainParagraph p \<longleftrightarrow>
     isParagraph p \<and> \<not> list_ex (hasElement (js ''p'')) (childNodes p) \<and>
     \<not> isEmptyContent (textWithBreaks p)"

text \<open>
  A paragraph element, at the node or anywhere below it, that \<open>removeEmptyParagraphs\<close>
  takes for empty.
\<close>

fun hasEmptyParagraph :: "node \<Rightarrow> bool" where
  "hasEmptyParagraph (Element name children) =
     ((name = js ''p'' \<and> isEmptyContent (textContent children)) \<or>
      list_ex hasEmptyParagraph children)"
| "hasEmptyParagraph (Text d) = False"
| "hasEmptyParagraph (Comment d) = False"

text \<open>The characters of a text that are not whitespace, in their order.\<close>

definition visibleChars :: "jsstring \<Rightarrow> jsstring" where
  "visibleChars t = filter (\<lambda>c. \<not> isWhiteSpace c) t"

text \<open>
  A blank line inside a text: a newline that is followed, after whitespace only, by
  another newline.
\<close>

fun hasBlankLine :: "jsstring \<Rightarrow> bool" where
  "hasBlankLine [] = False"
| "hasBlankLine (c # cs) =
     ((c = LF \<and> LF \<in> set (takeWhile isWhiteSpace cs)) \<or> hasBlankLine cs)"

text \<open>
  The text of one paragraph: not empty, trimmed, and without a blank line. A run of blank
  lines between two paragraphs: whitespace with at least two newlines.
\<close>

definition paragraphText :: "jsstring \<Rightarrow> bool" where
  "paragraphText p \<longleftrightarrow>
     p \<noteq> [] \<and> \<not> startsWithWhiteSpace p \<and> \<not> endsWithWhiteSpace p \<and> \<not> hasBlankLine p"

definition blankLineRun :: "jsstring \<Rightarrow> bool" where
  "blankLineRun w \<longleftrightarrow> list_all isWhiteSpace w \<and> 2 \<le> count_list w LF"

text \<open>
  The sections that \<open>textToCardHTMLs\<close> keeps, for a split that starts with \<open>acc\<close>
  already read: each piece trimmed, the empty ones left out.
\<close>

definition sectionsFrom :: "jsstring \<Rightarrow> jsstring \<Rightarrow> jsstring list" where
  "sectionsFrom acc s =
     filter (\<lambda>section. length section > 0) (map trim (splitParagraphs acc s))"

text \<open>
  \<open>result[0]\<close>: the first element of an array, the first character of a string,
  \<open>undefined\<close> where there is none.
\<close>

fun firstOf :: "cardHTMLs \<Rightarrow> jsvalue" where
  "firstOf (RArray (fragment # fragments)) = Str fragment"
| "firstOf (RArray []) = Undefined"
| "firstOf (RString (c # cs)) = Str [c]"
| "firstOf (RString []) = Undefined"

text \<open>
  A character that the HTML parser takes as it stands: none of \<open><\<close>, \<open>>\<close> and \<open>&\<close>, and
  neither NUL nor CR, which the parser drops or rewrites.
\<close>

definition plainChar :: "jschar \<Rightarrow> bool" where
  "plainChar c \<longleftrightarrow> c \<noteq> 0x3C \<and> c \<noteq> 0x3E \<and> c \<noteq> 0x26 \<and> c \<noteq> 0x00 \<and> c \<noteq> 0x0D"

text \<open>
  The children of the paragraph element of a fragment: a text node for every line, with a
  \<open>br\<close> element between two lines; and the tokens they are read from.
\<close>

fun breakLines :: "jsstring list \<Rightarrow> node list" where
  "breakLines [] = []"
| "breakLines [l] = [Text l]"
| "breakLines (l # m # ls) = Text l # Element (js ''br'') [] # breakLines (m # ls)"

fun lineTokens :: "jsstring list \<Rightarrow> token list" where
  "lineTokens [] = []"
| "lineTokens [l] = [Characters l]"
| "lineTokens (l # m # ls) = Characters l # StartTag (js ''br'') # lineTokens (m # ls)"

text \<open>A line that the tokenizer reads as one run of text: not empty, without \<open><\<close> and \<open>&\<close>.\<close>

definition plainLine :: "jsstring \<Rightarrow> bool" where
  "plainLine l \<longleftrightarrow> l \<noteq> [] \<and> 0x3C \<notin> set l \<and> 0x26 \<notin> set l"

text \<open>
  The paragraphs of a tree are separated: in every list of siblings, at any depth, a
  paragraph element that has a next sibling is directly followed by a text node that
  holds one newline.
\<close>

fun separated :: "node list \<Rightarrow> bool"
  and separatedBelow :: "node \<Rightarrow> bool" where
  "separated [] = True"
| "separated [n] = separatedBelow n"
| "separated (n # m # ns) =
     ((if isParagraph n then m = Text [LF] else True) \<and> separatedBelow n \<and>
      separated (m # ns))"
| "separatedBelow (Element name children) = separated children"
| "separatedBelow (Text d) = True"
| "separatedBelow (Comment d) = True"

text \<open>
  The text flow of a tree as the specification words it: a \<open>br\<close> element reads as one
  newline at its place, and one newline follows every paragraph element that has a
  following sibling, at any depth.
\<close>

fun separatedText :: "node list \<Rightarrow> jsstring"
  and separatedTextBelow :: "node \<Rightarrow> jsstring" where
  "separatedText [] = []"
| "separatedText [n] = separatedTextBelow n"
| "separatedText (n # m # ns) =
     separatedTextBelow n @ (if isParagraph n then [LF] else []) @ separatedText (m # ns)"
| "separatedTextBelow (Element name children) =
     (if name = js ''br'' then [LF] else separatedText children)"
| "separatedTextBelow (Text d) = d"
| "separatedTextBelow (Comment d) = []"

section \<open>Whitespace, trimming and splitting\<close>

lemmas literals = js_def LF_def NBSP_def SPACE_def

lemma isWhiteSpace_LF [simp]: "isWhiteSpace LF"
  by (simp add: isWhiteSpace_def LF_def)

lemma all_dropWhile_iff: "(\<forall>x\<in>set (dropWhile P s). P x) \<longleftrightarrow> (\<forall>x\<in>set s. P x)"
  by (induction s) auto

lemma trim_eq_Nil_iff: "trim s = [] \<longleftrightarrow> (\<forall>c\<in>set s. isWhiteSpace c)"
  by (simp add: trim_def all_dropWhile_iff)

lemma matchSeparator_suffix:
  "matchSeparator s = Some rest \<Longrightarrow> set rest \<subseteq> set s"
  by (auto simp: matchSeparator_def Let_def split: list.splits if_splits dest: in_set_dropD)

lemma splitParagraphs_whitespace:
  "\<forall>c\<in>set acc. isWhiteSpace c \<Longrightarrow> \<forall>c\<in>set s. isWhiteSpace c \<Longrightarrow>
   sec \<in> set (splitParagraphs acc s) \<Longrightarrow> \<forall>c\<in>set sec. isWhiteSpace c"
proof (induction acc s rule: splitParagraphs.induct)
  case (1 acc)
  then show ?case by simp
next
  case (2 acc c cs)
  show ?case
  proof (cases "matchSeparator (c # cs)")
    case None
    from "2.prems"(3) None have "sec \<in> set (splitParagraphs (c # acc) cs)" by simp
    moreover from "2.prems"(1,2) have "\<forall>x\<in>set (c # acc). isWhiteSpace x" by simp
    moreover from "2.prems"(2) have "\<forall>x\<in>set cs. isWhiteSpace x" by simp
    ultimately show ?thesis using "2.IH"(1) [OF None] by blast
  next
    case (Some rest)
    from "2.prems"(3) Some have "sec = rev acc \<or> sec \<in> set (splitParagraphs [] rest)" by simp
    then show ?thesis
    proof
      assume "sec = rev acc"
      with "2.prems"(1) show ?thesis by simp
    next
      assume a: "sec \<in> set (splitParagraphs [] rest)"
      from matchSeparator_suffix [OF Some] "2.prems"(2)
      have "\<forall>x\<in>set rest. isWhiteSpace x" by blast
      with "2.IH"(2) [OF Some] a show ?thesis by simp
    qed
  qed
qed

lemma whitespace_sections_trim_empty:
  assumes "\<forall>c\<in>set s. isWhiteSpace c"
  shows "\<forall>sec\<in>set (splitParagraphs [] s). trim sec = []"
  using splitParagraphs_whitespace [of "[]" s] assms by (simp add: trim_eq_Nil_iff)

lemma no_sections_no_fragments:
  assumes "\<forall>sec\<in>set (splitParagraphs [] s). trim sec = []"
  shows "filter (\<lambda>section. length section > 0) (map trim (splitParagraphs [] s)) = []"
  using assms by (simp add: filter_empty_conv)

lemma splitNL_acc:
  "splitNL acc s = (rev acc @ hd (splitNL [] s)) # tl (splitNL [] s)"
proof (induction s arbitrary: acc)
  case Nil
  show ?case by simp
next
  case (Cons c cs)
  show ?case
  proof (cases "c = LF")
    case True
    then show ?thesis by simp
  next
    case False
    have "splitNL acc (c # cs) = splitNL (c # acc) cs" using False by simp
    also have "\<dots> = (rev (c # acc) @ hd (splitNL [] cs)) # tl (splitNL [] cs)"
      by (rule Cons.IH)
    also have "\<dots> = (rev acc @ hd (splitNL [c] cs)) # tl (splitNL [c] cs)"
      by (subst (2 3) Cons.IH) simp
    finally show ?thesis using False by simp
  qed
qed

lemma splitNL_Cons:
  "splitNL [] (c # cs) =
     (if c = LF then [] # splitNL [] cs
      else (c # hd (splitNL [] cs)) # tl (splitNL [] cs))"
  using splitNL_acc [of "[c]" cs] by simp

lemma splitNL_not_Nil [simp]: "splitNL acc s \<noteq> []"
  by (induction s arbitrary: acc) auto

lemma splitNL_chars:
  "\<Union>(set ` set (splitNL [] s)) = set s - {LF}"
proof (induction s)
  case Nil
  show ?case by simp
next
  case (Cons c cs)
  obtain l ls where e: "splitNL [] cs = l # ls" by (cases "splitNL [] cs") simp_all
  with Cons show ?case by (auto simp: splitNL_Cons simp del: splitNL.simps)
qed

lemma trim_Nil [simp]: "trim [] = []"
  by (simp add: trim_def)

lemma trim_ws_Cons: "isWhiteSpace c \<Longrightarrow> trim (c # l) = trim l"
  by (simp add: trim_def)

lemma trim_ws_snoc: "isWhiteSpace c \<Longrightarrow> trim (l @ [c]) = trim l"
proof (cases "\<forall>x\<in>set l. isWhiteSpace x")
  case True
  assume "isWhiteSpace c"
  with True have "trim (l @ [c]) = []" "trim l = []" by (simp_all add: trim_eq_Nil_iff)
  then show ?thesis by simp
next
  case False
  assume c: "isWhiteSpace c"
  from False have "dropWhile isWhiteSpace (l @ [c]) = dropWhile isWhiteSpace l @ [c]"
    by (auto simp: dropWhile_append1)
  with c show ?thesis by (simp add: trim_def)
qed

lemma cleanedLines_ws_Cons:
  assumes "isWhiteSpace c"
  shows "cleanedLines (c # s) = cleanedLines s"
proof -
  obtain l ls where e: "splitNL [] s = l # ls" by (cases "splitNL [] s") simp_all
  show ?thesis
    unfolding cleanedLines_def splitNL_Cons using assms e by (simp add: trim_ws_Cons)
qed

lemma splitNL_snoc:
  "splitNL [] (s @ [c]) =
     (if c = LF then splitNL [] s @ [[]]
      else butlast (splitNL [] s) @ [last (splitNL [] s) @ [c]])"
proof (induction s)
  case Nil
  show ?case by simp
next
  case (Cons d ds)
  obtain l ls where e: "splitNL [] ds = l # ls" by (cases "splitNL [] ds") simp_all
  obtain l' ls' where e': "splitNL [] (ds @ [c]) = l' # ls'"
    by (cases "splitNL [] (ds @ [c])") simp_all
  have "splitNL [] ((d # ds) @ [c]) = splitNL [] (d # (ds @ [c]))" by simp
  also have "\<dots> = (if d = LF then [] # splitNL [] (ds @ [c])
      else (d # hd (splitNL [] (ds @ [c]))) # tl (splitNL [] (ds @ [c])))"
    by (rule splitNL_Cons)
  finally show ?case using Cons.IH e
    by (cases ls rule: rev_cases) (auto simp: splitNL_Cons simp del: splitNL.simps)
qed

lemma cleanedLines_ws_snoc:
  assumes "isWhiteSpace c"
  shows "cleanedLines (s @ [c]) = cleanedLines s"
proof -
  have ne: "splitNL [] s \<noteq> []" by simp
  then obtain ls l where e: "splitNL [] s = ls @ [l]" by (cases "splitNL [] s" rule: rev_cases) simp_all
  show ?thesis
    unfolding cleanedLines_def splitNL_snoc using assms e by (simp add: trim_ws_snoc)
qed

lemma cleanedLines_dropWhile:
  "cleanedLines (dropWhile isWhiteSpace s) = cleanedLines s"
  by (induction s) (simp_all add: cleanedLines_ws_Cons)

lemma cleanedLines_dropWhile_rev:
  "cleanedLines (rev (dropWhile isWhiteSpace (rev s))) = cleanedLines s"
  by (induction s rule: rev_induct) (simp_all add: cleanedLines_ws_snoc)

lemma cleanedLines_trim: "cleanedLines (trim s) = cleanedLines s"
  by (simp add: trim_def cleanedLines_dropWhile_rev cleanedLines_dropWhile)

lemma dropWhile_no_start: "\<not> startsWithWhiteSpace (dropWhile isWhiteSpace s)"
  by (induction s) simp_all

lemma startsWith_dropWhile:
  "\<not> startsWithWhiteSpace s \<Longrightarrow> dropWhile isWhiteSpace s = s"
  by (cases s) simp_all

lemma trim_no_end: "\<not> endsWithWhiteSpace (trim s)"
  by (simp add: endsWithWhiteSpace_def trim_def dropWhile_no_start)

lemma trim_no_start: "\<not> startsWithWhiteSpace (trim s)"
proof -
  define d where "d = dropWhile isWhiteSpace s"
  have d: "\<not> startsWithWhiteSpace d" by (simp add: d_def dropWhile_no_start)
  have "d = rev (dropWhile isWhiteSpace (rev d)) @ rev (takeWhile isWhiteSpace (rev d))"
    by (metis rev_append rev_rev_ident takeWhile_dropWhile_id)
  then have "d = trim s @ rev (takeWhile isWhiteSpace (rev d))"
    by (simp add: trim_def d_def)
  then have "startsWithWhiteSpace (trim s) \<Longrightarrow> startsWithWhiteSpace d"
    by (cases "trim s") (simp, metis append_Cons startsWithWhiteSpace.simps(2))
  with d show ?thesis by blast
qed

lemma trim_fixed:
  "\<not> startsWithWhiteSpace s \<Longrightarrow> \<not> endsWithWhiteSpace s \<Longrightarrow> trim s = s"
  by (simp add: trim_def endsWithWhiteSpace_def startsWith_dropWhile)

lemma trim_trim [simp]: "trim (trim s) = trim s"
  by (rule trim_fixed) (rule trim_no_start, rule trim_no_end)

lemma set_trim: "set (trim s) \<subseteq> set s"
proof -
  have "set (trim s) \<subseteq> set (rev (dropWhile isWhiteSpace s))"
    unfolding trim_def set_rev by (auto dest: set_dropWhileD)
  then show ?thesis by (auto dest: set_dropWhileD)
qed

lemma splitNL_no_LF: "l \<in> set (splitNL [] s) \<Longrightarrow> LF \<notin> set l"
  using splitNL_chars [of s] by auto

lemma cleanedLines_clean: "l \<in> set (cleanedLines s) \<Longrightarrow> cleanLine l"
  using set_trim splitNL_no_LF
  by (fastforce simp: cleanedLines_def cleanLine_def trim_no_start trim_no_end)

lemma cleanedLines_not_Nil:
  assumes "trim s \<noteq> []"
  shows "cleanedLines s \<noteq> []"
proof -
  from assms obtain c where c: "c \<in> set s" "\<not> isWhiteSpace c"
    by (auto simp: trim_eq_Nil_iff)
  then have "c \<noteq> LF" by auto
  with c splitNL_chars [of s] obtain l where l: "l \<in> set (splitNL [] s)" "c \<in> set l"
    by auto
  with c have "trim l \<noteq> []" by (auto simp: trim_eq_Nil_iff)
  with l have "trim l \<in> set (cleanedLines s)" by (auto simp: cleanedLines_def)
  then show ?thesis by auto
qed

lemma toCardHTML_centered: "toCardHTML sec = centeredParagraph (cleanedLines sec)"
  by (simp add: toCardHTML_def centeredParagraph_def)

lemma fragments_of_sections:
  "map toCardHTML (filter (\<lambda>section. length section > 0) (map trim (splitParagraphs [] s))) =
   map (\<lambda>sec. centeredParagraph (cleanedLines sec))
     (filter (\<lambda>sec. trim sec \<noteq> []) (splitParagraphs [] s))"
  by (simp add: filter_map comp_def toCardHTML_centered cleanedLines_trim)

lemma centeredParagraph_visible:
  "centeredParagraph ls \<noteq> [] \<and> \<not> list_all isWhiteSpace (centeredParagraph ls)"
  by (simp add: centeredParagraph_def js_def isWhiteSpace_def)

section \<open>Empty input\<close>

text \<open>
  C8. For the empty string, \<open>null\<close> and \<open>undefined\<close>, \<open>htmlToText\<close> returns the empty
  string, whatever the browser would do with the input: the function returns before it
  parses anything, so nothing can fail.
\<close>

theorem htmlToText_empty_input:
  "htmlToText h (Str []) = [] \<and> htmlToText h Null = [] \<and> htmlToText h Undefined = []"
  by simp

text \<open>
  C9. For input that is empty or absent, and for input made of whitespace and blank lines
  only, \<open>textToCardHTMLs\<close> gives a result without fragments.
\<close>

theorem textToCardHTMLs_empty_result:
  "(falsy v \<longrightarrow> emptyResult (textToCardHTMLs v)) \<and>
   (list_all isWhiteSpace s \<longrightarrow> emptyResult (textToCardHTMLs (Str s)))"
proof (intro conjI impI)
  assume "falsy v"
  then show "emptyResult (textToCardHTMLs v)" by (cases v) simp_all
next
  assume "list_all isWhiteSpace s"
  then have "\<forall>c\<in>set s. isWhiteSpace c" by (simp add: list_all_iff)
  from no_sections_no_fragments [OF whitespace_sections_trim_empty [OF this]]
  show "emptyResult (textToCardHTMLs (Str s))" by simp
qed

theorem textToCardHTMLs_empty_result_witness:
  "falsy (Str []) \<and> emptyResult (textToCardHTMLs (Str [])) \<and>
   list_all isWhiteSpace (js ''   '' @ [LF, LF] @ js ''   '') \<and>
   emptyResult (textToCardHTMLs (Str (js ''   '' @ [LF, LF] @ js ''   '')))"
proof -
  have h: "list_all isWhiteSpace (js ''   '' @ [LF, LF] @ js ''   '')"
    by (simp add: literals isWhiteSpace_def)
  from textToCardHTMLs_empty_result [of "Str []" "js ''   '' @ [LF, LF] @ js ''   ''"] h
  show ?thesis by simp
qed

text \<open>
  C10. The two empty results differ with the input: a falsy input (the empty string,
  \<open>null\<close>, \<open>undefined\<close>) gives the string \<open>''\<close>, and a non-empty input whose paragraphs
  all trim to nothing, as every non-empty input of whitespace only, gives the array \<open>[]\<close>,
  a value of another type.
\<close>

theorem textToCardHTMLs_two_empty_results:
  "(falsy v \<longrightarrow> textToCardHTMLs v = RString []) \<and>
   (s \<noteq> [] \<and> list_all (\<lambda>sec. trim sec = []) (splitParagraphs [] s) \<longrightarrow>
      textToCardHTMLs (Str s) = RArray []) \<and>
   (s \<noteq> [] \<and> list_all isWhiteSpace s \<longrightarrow> textToCardHTMLs (Str s) = RArray []) \<and>
   RString [] \<noteq> RArray []"
proof (intro conjI impI)
  assume "falsy v"
  then show "textToCardHTMLs v = RString []" by (cases v) simp_all
next
  assume "s \<noteq> [] \<and> list_all (\<lambda>sec. trim sec = []) (splitParagraphs [] s)"
  then show "textToCardHTMLs (Str s) = RArray []"
    using no_sections_no_fragments [of s] by (simp add: list_all_iff)
next
  assume "s \<noteq> [] \<and> list_all isWhiteSpace s"
  then show "textToCardHTMLs (Str s) = RArray []"
    using no_sections_no_fragments [OF whitespace_sections_trim_empty, of s]
    by (simp add: list_all_iff)
qed simp

theorem textToCardHTMLs_two_empty_results_witness:
  "falsy Null \<and> textToCardHTMLs Null = RString [] \<and>
   js ''  '' @ [LF] \<noteq> [] \<and>
   list_all (\<lambda>sec. trim sec = []) (splitParagraphs [] (js ''  '' @ [LF])) \<and>
   list_all isWhiteSpace (js ''  '' @ [LF]) \<and>
   textToCardHTMLs (Str (js ''  '' @ [LF])) = RArray []"
proof -
  have h: "list_all isWhiteSpace (js ''  '' @ [LF])"
    by (simp add: literals isWhiteSpace_def)
  have g: "list_all (\<lambda>sec. trim sec = []) (splitParagraphs [] (js ''  '' @ [LF]))"
    by (simp add: literals isWhiteSpace_def matchSeparator_def trim_def)
  from textToCardHTMLs_two_empty_results [of Null "js ''  '' @ [LF]"] h g
  show ?thesis by (simp add: js_def)
qed

section \<open>The fragments of \<open>textToCardHTMLs\<close>\<close>

text \<open>
  C3. Whatever the input, no element of the sequence that \<open>textToCardHTMLs\<close> returns is
  the empty string or a string of whitespace only.
\<close>

theorem textToCardHTMLs_fragments_visible:
  "list_all (\<lambda>f. f \<noteq> [] \<and> \<not> list_all isWhiteSpace f) (elements (textToCardHTMLs v))"
proof (cases v)
  case (Str s)
  show ?thesis
  proof (cases "s = []")
    case True
    with Str show ?thesis by simp
  next
    case False
    with Str show ?thesis
      using centeredParagraph_visible
      by (simp add: fragments_of_sections list_all_iff del: length_greater_0_conv)
  qed
qed simp_all

theorem textToCardHTMLs_fragments_visible_witness:
  "elements (textToCardHTMLs (Str (js ''A''))) = [js ''<p style=\"text-align:center;\">A</p>''] \<and>
   list_all (\<lambda>f. f \<noteq> [] \<and> \<not> list_all isWhiteSpace f)
     (elements (textToCardHTMLs (Str (js ''A''))))"
proof -
  have "elements (textToCardHTMLs (Str (js ''A''))) = [js ''<p style=\"text-align:center;\">A</p>'']"
    by (simp add: literals toCardHTML_def cleanedLines_def trim_def isWhiteSpace_def
          matchSeparator_def)
  with textToCardHTMLs_fragments_visible [of "Str (js ''A'')"] show ?thesis by simp
qed

text \<open>
  C4. Every fragment is exactly a paragraph element with the inline style
  \<open>text-align:center;\<close> around the lines of its paragraph, each trimmed, the empty ones
  left out, with \<open><br>\<close> between them; there is at least one such line, and each is
  non-empty, trimmed and free of newlines. For \<open>'A\n\nB\nC'\<close> the result is the fragment
  around \<open>A\<close> and the fragment around \<open>B<br>C\<close>.
\<close>

theorem textToCardHTMLs_fragment_format:
  "(s \<noteq> [] \<longrightarrow>
      textToCardHTMLs (Str s) =
        RArray (map (\<lambda>sec. centeredParagraph (cleanedLines sec))
                 (filter (\<lambda>sec. trim sec \<noteq> []) (splitParagraphs [] s)))) \<and>
   list_all (\<lambda>sec. cleanedLines sec \<noteq> [] \<and> list_all cleanLine (cleanedLines sec))
     (filter (\<lambda>sec. trim sec \<noteq> []) (splitParagraphs [] s)) \<and>
   textToCardHTMLs (Str (js ''A'' @ [LF, LF] @ js ''B'' @ [LF] @ js ''C'')) =
     RArray [js ''<p style=\"text-align:center;\">A</p>'',
             js ''<p style=\"text-align:center;\">B<br>C</p>'']"
proof (intro conjI impI)
  assume "s \<noteq> []"
  then show "textToCardHTMLs (Str s) =
        RArray (map (\<lambda>sec. centeredParagraph (cleanedLines sec))
                 (filter (\<lambda>sec. trim sec \<noteq> []) (splitParagraphs [] s)))"
    by (simp add: fragments_of_sections del: length_greater_0_conv)
next
  show "list_all (\<lambda>sec. cleanedLines sec \<noteq> [] \<and> list_all cleanLine (cleanedLines sec))
     (filter (\<lambda>sec. trim sec \<noteq> []) (splitParagraphs [] s))"
    by (simp add: list_all_iff cleanedLines_not_Nil cleanedLines_clean)
next
  show "textToCardHTMLs (Str (js ''A'' @ [LF, LF] @ js ''B'' @ [LF] @ js ''C'')) =
     RArray [js ''<p style=\"text-align:center;\">A</p>'',
             js ''<p style=\"text-align:center;\">B<br>C</p>'']"
    by (simp add: literals toCardHTML_def cleanedLines_def trim_def isWhiteSpace_def
          matchSeparator_def)
qed

theorem textToCardHTMLs_fragment_format_witness:
  "js ''B'' @ [LF] @ js '' C '' \<noteq> [] \<and>
   textToCardHTMLs (Str (js ''B'' @ [LF] @ js '' C '')) =
     RArray [centeredParagraph [js ''B'', js ''C'']] \<and>
   centeredParagraph [js ''B'', js ''C''] = js ''<p style=\"text-align:center;\">B<br>C</p>'' \<and>
   list_all cleanLine [js ''B'', js ''C'']"
proof -
  have a: "splitParagraphs [] (js ''B'' @ [LF] @ js '' C '') = [js ''B'' @ [LF] @ js '' C '']"
    by (simp add: literals matchSeparator_def isWhiteSpace_def)
  have b: "cleanedLines (js ''B'' @ [LF] @ js '' C '') = [js ''B'', js ''C'']"
    by (simp add: literals cleanedLines_def trim_def isWhiteSpace_def)
  have c: "trim (js ''B'' @ [LF] @ js '' C '') \<noteq> []"
    by (simp add: literals trim_def isWhiteSpace_def)
  have d: "centeredParagraph [js ''B'', js ''C''] = js ''<p style=\"text-align:center;\">B<br>C</p>''"
    by (simp add: centeredParagraph_def js_def)
  from textToCardHTMLs_fragment_format [of "js ''B'' @ [LF] @ js '' C ''"] a b c d
  show ?thesis by (simp add: js_def)
qed

section \<open>The text that \<open>htmlToText\<close> returns\<close>

lemma hasDoubleNewline_Cons:
  "hasDoubleNewline (a # t) \<longleftrightarrow> (a = LF \<and> t \<noteq> [] \<and> hd t = LF) \<or> hasDoubleNewline t"
  by (cases t) auto

lemma hasDoubleNewline_iff:
  "hasDoubleNewline t \<longleftrightarrow> (\<exists>u v. t = u @ LF # LF # v)"
proof (induction t)
  case Nil
  show ?case by simp
next
  case (Cons a t)
  show ?case
  proof
    assume "hasDoubleNewline (a # t)"
    then consider "a = LF" "t \<noteq> []" "hd t = LF" | "hasDoubleNewline t"
      by (auto simp: hasDoubleNewline_Cons)
    then show "\<exists>u v. a # t = u @ LF # LF # v"
    proof cases
      case 1
      then have "a # t = [] @ LF # LF # tl t" by (cases t) simp_all
      then show ?thesis by blast
    next
      case 2
      with Cons obtain u v where "t = u @ LF # LF # v" by blast
      then have "a # t = (a # u) @ LF # LF # v" by simp
      then show ?thesis by blast
    qed
  next
    assume "\<exists>u v. a # t = u @ LF # LF # v"
    then obtain u v where e: "a # t = u @ LF # LF # v" by blast
    show "hasDoubleNewline (a # t)"
    proof (cases u)
      case Nil
      with e show ?thesis by auto
    next
      case (Cons b u')
      with e have "t = u' @ LF # LF # v" by simp
      with Cons.IH have "hasDoubleNewline t" by blast
      then show ?thesis by (simp add: hasDoubleNewline_Cons)
    qed
  qed
qed

lemma hasDoubleNewline_rev: "hasDoubleNewline (rev t) \<longleftrightarrow> hasDoubleNewline t"
proof -
  have "\<And>t. hasDoubleNewline t \<Longrightarrow> hasDoubleNewline (rev t)"
  proof -
    fix t assume "hasDoubleNewline t"
    then obtain u v where "t = u @ LF # LF # v" by (auto simp: hasDoubleNewline_iff)
    then have "rev t = rev v @ LF # LF # rev u" by simp
    then show "hasDoubleNewline (rev t)" unfolding hasDoubleNewline_iff by blast
  qed
  from this [of t] this [of "rev t"] show ?thesis by auto
qed

lemma hasDoubleNewline_dropWhile:
  "hasDoubleNewline (dropWhile P t) \<Longrightarrow> hasDoubleNewline t"
proof -
  assume "hasDoubleNewline (dropWhile P t)"
  then obtain u v where "dropWhile P t = u @ LF # LF # v" by (auto simp: hasDoubleNewline_iff)
  then have "t = (takeWhile P t @ u) @ LF # LF # v"
    by (metis append.assoc takeWhile_dropWhile_id)
  then show ?thesis unfolding hasDoubleNewline_iff by blast
qed

lemma hasDoubleNewline_trim: "hasDoubleNewline (trim t) \<Longrightarrow> hasDoubleNewline t"
  unfolding trim_def hasDoubleNewline_rev
  by (auto dest!: hasDoubleNewline_dropWhile simp: hasDoubleNewline_rev)

lemma collapseNewlines_Nil_iff [simp]: "collapseNewlines t = [] \<longleftrightarrow> t = []"
  by (cases t) simp_all

lemma hd_collapseNewlines: "t \<noteq> [] \<Longrightarrow> hd (collapseNewlines t) = hd t"
  by (cases t) simp_all

lemma collapseNewlines_no_double: "\<not> hasDoubleNewline (collapseNewlines t)"
proof (induction t rule: collapseNewlines.induct)
  case 1
  show ?case by simp
next
  case (2 c cs)
  show ?case
  proof (cases "c = LF")
    case True
    define r where "r = dropWhile (\<lambda>x. x = LF) cs"
    have "r \<noteq> [] \<Longrightarrow> hd r \<noteq> LF"
      unfolding r_def using hd_dropWhile [of "\<lambda>x. x = LF" cs] by simp
    then have "r \<noteq> [] \<Longrightarrow> hd (collapseNewlines r) \<noteq> LF"
      by (simp add: hd_collapseNewlines)
    moreover from True 2(1) have "\<not> hasDoubleNewline (collapseNewlines r)"
      by (simp add: r_def)
    moreover from True have "collapseNewlines (c # cs) = LF # collapseNewlines r"
      by (simp add: r_def)
    ultimately show ?thesis
      by (auto simp: hasDoubleNewline_Cons)
  next
    case False
    with 2(2) show ?thesis by (simp add: hasDoubleNewline_Cons)
  qed
qed

lemma set_collapseNewlines: "set (collapseNewlines t) \<subseteq> set t"
proof (induction t rule: collapseNewlines.induct)
  case 1
  show ?case by simp
next
  case (2 c cs)
  then show ?case by (auto dest: set_dropWhileD)
qed

lemma NBSP_replaced: "NBSP \<notin> set (replaceNbsp t)"
  by (auto simp: replaceNbsp_def NBSP_def SPACE_def)

lemma cleanupText_invariant:
  "\<not> hasDoubleNewline (cleanupText t) \<and> NBSP \<notin> set (cleanupText t) \<and>
   \<not> startsWithWhiteSpace (cleanupText t) \<and> \<not> endsWithWhiteSpace (cleanupText t)"
proof (intro conjI)
  show "\<not> hasDoubleNewline (cleanupText t)"
    unfolding cleanupText_def using hasDoubleNewline_trim collapseNewlines_no_double by blast
  show "NBSP \<notin> set (cleanupText t)"
    unfolding cleanupText_def using set_trim set_collapseNewlines NBSP_replaced by blast
  show "\<not> startsWithWhiteSpace (cleanupText t)"
    unfolding cleanupText_def by (rule trim_no_start)
  show "\<not> endsWithWhiteSpace (cleanupText t)"
    unfolding cleanupText_def by (rule trim_no_end)
qed

text \<open>
  C2. Whatever the input, and whatever the browser makes of it, the string that
  \<open>htmlToText\<close> returns has no two newlines in a row, holds no non-breaking space, and
  neither starts nor ends with whitespace.
\<close>

theorem htmlToText_output_invariant:
  "\<not> hasDoubleNewline (htmlToText h v) \<and> NBSP \<notin> set (htmlToText h v) \<and>
   \<not> startsWithWhiteSpace (htmlToText h v) \<and> \<not> endsWithWhiteSpace (htmlToText h v)"
proof (cases v)
  case (Str html)
  show ?thesis
  proof (cases "html = []")
    case True
    with Str show ?thesis by (simp add: endsWithWhiteSpace_def)
  next
    case False
    with Str show ?thesis using cleanupText_invariant by simp
  qed
qed (simp_all add: endsWithWhiteSpace_def)

theorem htmlToText_output_invariant_witness:
  "htmlToText browser (Str (js ''<p> A&nbsp;B<br><br></p><p>C</p>'')) = js ''A B'' @ [LF] @ js ''C'' \<and>
   \<not> hasDoubleNewline (js ''A B'' @ [LF] @ js ''C'') \<and> NBSP \<notin> set (js ''A B'' @ [LF] @ js ''C'') \<and>
   \<not> startsWithWhiteSpace (js ''A B'' @ [LF] @ js ''C'') \<and>
   \<not> endsWithWhiteSpace (js ''A B'' @ [LF] @ js ''C'')"
proof -
  have e: "htmlToText browser (Str (js ''<p> A&nbsp;B<br><br></p><p>C</p>'')) = js ''A B'' @ [LF] @ js ''C''"
    by (simp add: literals browser_def parseHTML_def tagToken_def tagName_def asciiLower_def
          namedReferences_def voidElements_def processLineBreaks_def isEmptyContent_def
          textContent_def trim_def isWhiteSpace_def cleanupText_def replaceNbsp_def
          extractText_def)
  from htmlToText_output_invariant [of browser "Str (js ''<p> A&nbsp;B<br><br></p><p>C</p>'')"]
  show ?thesis unfolding e by simp
qed

section \<open>Line breaks and paragraphs\<close>

lemma descendantText_replaceBr: "descendantText (replaceBr n) = textWithBreaks n"
  by (induction n) (simp_all cong: map_cong)

lemma textContent_replaceBr:
  "textContent (map replaceBr ns) = concat (map textWithBreaks ns)"
  by (simp add: textContent_def descendantText_replaceBr comp_def)

lemma br_not_p: "js ''br'' \<noteq> js ''p''" "js ''p'' \<noteq> js ''br''"
  by (simp_all add: js_def)

lemma no_br_replaceBr: "\<not> hasElement (js ''br'') (replaceBr n)"
  by (induction n) (simp_all add: list_ex_iff)

lemma hasElement_p_replaceBr:
  "hasElement (js ''p'') (replaceBr n) \<Longrightarrow> hasElement (js ''p'') n"
  by (induction n) (auto simp: list_ex_iff br_not_p split: if_splits)

lemma insertAfterP_id:
  "\<not> list_ex (hasElement (js ''p'')) ns \<Longrightarrow> insertAfterP ns = ns"
  "\<not> hasElement (js ''p'') n \<Longrightarrow> insertBelow n = n"
proof (induction ns and n rule: insertAfterP_insertBelow.induct)
  case (3 n m ns)
  then have "\<not> isParagraph n" by (cases n) auto
  with 3 show ?case by simp
qed simp_all

lemma removeEmptyParagraphs_id:
  "\<not> list_ex (hasElement (js ''p'')) ns \<Longrightarrow> removeEmptyParagraphs ns = ns"
  by (induction ns rule: removeEmptyParagraphs.induct) simp_all


lemma plainParagraph_replaceBr:
  assumes "plainParagraph p"
  shows "isParagraph (replaceBr p)"
    and "insertBelow (replaceBr p) = replaceBr p"
    and "removeEmptyParagraphs (replaceBr p # rest) = replaceBr p # removeEmptyParagraphs rest"
proof -
  from assms obtain name children where p: "p = Element name children"
    by (cases p) (simp_all add: plainParagraph_def)
  from assms have ne: "\<not> isEmptyContent (textWithBreaks p)"
    by (simp add: plainParagraph_def)
  from p assms have name: "name = js ''p''" and
    nop: "\<not> list_ex (hasElement (js ''p'')) children"
    by (simp_all add: plainParagraph_def)
  from nop have nop': "\<not> list_ex (hasElement (js ''p'')) (map replaceBr children)"
    by (auto simp: list_ex_iff dest: hasElement_p_replaceBr)
  have r: "replaceBr p = Element (js ''p'') (map replaceBr children)"
    using p name br_not_p by simp
  show "isParagraph (replaceBr p)" by (simp add: r)
  show "insertBelow (replaceBr p) = replaceBr p"
    by (simp add: r insertAfterP_id(1) [OF nop'])
  have "textContent (map replaceBr children) = textWithBreaks p"
    using p name br_not_p by (simp add: textContent_replaceBr)
  with ne show "removeEmptyParagraphs (replaceBr p # rest) = replaceBr p # removeEmptyParagraphs rest"
    by (simp add: r removeEmptyParagraphs_id [OF nop'])
qed

lemma textContent_Cons: "textContent (n # ns) = descendantText n @ textContent ns"
  by (simp add: textContent_def)

lemma paragraphs_joined:
  "list_all plainParagraph ps \<Longrightarrow>
   textContent (removeEmptyParagraphs (insertAfterP (map replaceBr ps))) =
   joinWith [LF] (map textWithBreaks ps)"
proof (induction ps rule: induct_list012)
  case 1
  show ?case by (simp add: textContent_def)
next
  case (2 p)
  then have "plainParagraph p" by simp
  from plainParagraph_replaceBr(2,3) [OF this]
  show ?case by (simp add: textContent_def descendantText_replaceBr)
next
  case (3 p q ps)
  then have p: "plainParagraph p" and rest: "list_all plainParagraph (q # ps)" by simp_all
  have "insertAfterP (map replaceBr (p # q # ps)) =
          replaceBr p # Text [LF] # insertAfterP (map replaceBr (q # ps))"
    using plainParagraph_replaceBr(1,2) [OF p] by simp
  then have "removeEmptyParagraphs (insertAfterP (map replaceBr (p # q # ps))) =
          replaceBr p # Text [LF] # removeEmptyParagraphs (insertAfterP (map replaceBr (q # ps)))"
    using plainParagraph_replaceBr(3) [OF p] by simp
  then show ?case using "3.IH"(2) [OF rest]
    by (simp add: textContent_Cons descendantText_replaceBr)
qed

lemma isWhiteSpace_replaced:
  "isWhiteSpace (if c = NBSP then SPACE else c) = isWhiteSpace c"
  by (simp add: isWhiteSpace_def NBSP_def SPACE_def)

lemma startsWithWhiteSpace_replaceNbsp:
  "startsWithWhiteSpace (replaceNbsp t) = startsWithWhiteSpace t"
  by (cases t) (simp_all add: replaceNbsp_def isWhiteSpace_replaced)

lemma endsWithWhiteSpace_replaceNbsp:
  "endsWithWhiteSpace (replaceNbsp t) = endsWithWhiteSpace t"
  using startsWithWhiteSpace_replaceNbsp [of "rev t"]
  by (simp add: endsWithWhiteSpace_def replaceNbsp_def rev_map)

lemma hasDoubleNewline_replaceNbsp:
  "hasDoubleNewline (replaceNbsp t) = hasDoubleNewline t"
proof (induction t rule: hasDoubleNewline.induct)
  case (1 a b cs)
  then show ?case by (simp add: replaceNbsp_def NBSP_def SPACE_def LF_def)
qed (simp_all add: replaceNbsp_def)

lemma collapseNewlines_id: "\<not> hasDoubleNewline t \<Longrightarrow> collapseNewlines t = t"
proof (induction t rule: collapseNewlines.induct)
  case 1
  show ?case by simp
next
  case (2 c cs)
  from "2.prems" have tl: "\<not> hasDoubleNewline cs" by (simp add: hasDoubleNewline_Cons)
  show ?case
  proof (cases "c = LF")
    case True
    with "2.prems" have "cs = [] \<or> hd cs \<noteq> LF" by (auto simp: hasDoubleNewline_Cons)
    then have "dropWhile (\<lambda>x. x = LF) cs = cs" by (cases cs) auto
    with True tl "2.IH"(1) show ?thesis by simp
  next
    case False
    with tl "2.IH"(2) show ?thesis by simp
  qed
qed

lemma hasDoubleNewline_append:
  "LF \<notin> set x \<Longrightarrow> hasDoubleNewline (x @ t) = hasDoubleNewline t"
  by (induction x) (auto simp: hasDoubleNewline_Cons)

lemma joinWith_Cons:
  "joinWith sep (x # xs) = (if xs = [] then x else x @ sep @ joinWith sep xs)"
  by (cases xs) simp_all

lemma cleanLine_hd: "cleanLine l \<Longrightarrow> l \<noteq> [] \<and> hd l \<noteq> LF"
  by (cases l) (auto simp: cleanLine_def)

lemma joinWith_clean_hd:
  "list_all cleanLine ls \<Longrightarrow> ls \<noteq> [] \<Longrightarrow>
   joinWith [LF] ls \<noteq> [] \<and> hd (joinWith [LF] ls) = hd (hd ls)"
  by (cases ls) (auto simp: joinWith_Cons dest: cleanLine_hd)

lemma joinWith_no_double:
  "list_all cleanLine ls \<Longrightarrow> \<not> hasDoubleNewline (joinWith [LF] ls)"
proof (induction ls)
  case Nil
  show ?case by simp
next
  case (Cons l ls)
  then have "cleanLine l" and rest: "list_all cleanLine ls" by simp_all
  then have l: "LF \<notin> set l" by (simp add: cleanLine_def)
  show ?case
  proof (cases "ls = []")
    case True
    with l hasDoubleNewline_append [of l "[]"] show ?thesis by simp
  next
    case False
    from joinWith_clean_hd [OF rest False] cleanLine_hd [of "hd ls"] rest False
    have "joinWith [LF] ls \<noteq> []" "hd (joinWith [LF] ls) \<noteq> LF"
      by (cases ls; simp)+
    with Cons.IH [OF rest] False l show ?thesis
      by (simp add: joinWith_Cons hasDoubleNewline_append hasDoubleNewline_Cons)
  qed
qed

lemma startsWithWhiteSpace_append:
  "x \<noteq> [] \<Longrightarrow> startsWithWhiteSpace (x @ t) = startsWithWhiteSpace x"
  by (cases x) simp_all

lemma endsWithWhiteSpace_append:
  "t \<noteq> [] \<Longrightarrow> endsWithWhiteSpace (x @ t) = endsWithWhiteSpace t"
  by (simp add: endsWithWhiteSpace_def startsWithWhiteSpace_append)

lemma endsWithWhiteSpace_Cons:
  "t \<noteq> [] \<Longrightarrow> endsWithWhiteSpace (c # t) = endsWithWhiteSpace t"
  using endsWithWhiteSpace_append [of t "[c]"] by simp

lemma joinWith_clean_ends:
  "list_all cleanLine ls \<Longrightarrow>
   \<not> startsWithWhiteSpace (joinWith [LF] ls) \<and> \<not> endsWithWhiteSpace (joinWith [LF] ls)"
proof (induction ls)
  case Nil
  show ?case by (simp add: endsWithWhiteSpace_def)
next
  case (Cons l ls)
  then have l: "cleanLine l" and rest: "list_all cleanLine ls" by simp_all
  show ?case
  proof (cases "ls = []")
    case True
    with l show ?thesis by (simp add: cleanLine_def)
  next
    case False
    from joinWith_clean_hd [OF rest False] have "joinWith [LF] ls \<noteq> []" by simp
    with Cons.IH [OF rest] l False show ?thesis
      by (simp add: joinWith_Cons cleanLine_def startsWithWhiteSpace_append
            endsWithWhiteSpace_append endsWithWhiteSpace_Cons)
  qed
qed

lemma cleanupText_clean_lines:
  assumes "list_all cleanLine ls"
  shows "cleanupText (joinWith [LF] ls) = replaceNbsp (joinWith [LF] ls)"
proof -
  let ?t = "replaceNbsp (joinWith [LF] ls)"
  have "\<not> hasDoubleNewline ?t"
    by (simp add: hasDoubleNewline_replaceNbsp joinWith_no_double [OF assms])
  then have "collapseNewlines ?t = ?t" by (rule collapseNewlines_id)
  moreover have "trim ?t = ?t"
    using joinWith_clean_ends [OF assms]
    by (intro trim_fixed)
       (simp_all add: startsWithWhiteSpace_replaceNbsp endsWithWhiteSpace_replaceNbsp)
  ultimately show ?thesis by (simp add: cleanupText_def)
qed

lemma hasElement_insertAfterP:
  "list_ex (hasElement name) (insertAfterP ns) = list_ex (hasElement name) ns"
  "hasElement name (insertBelow n) = hasElement name n"
  by (induction ns and n rule: insertAfterP_insertBelow.induct) simp_all

lemma no_br_processLineBreaks:
  "\<not> list_ex (hasElement (js ''br'')) (processLineBreaks ns)"
  unfolding processLineBreaks_def hasElement_insertAfterP(1)
  by (simp add: list_ex_iff no_br_replaceBr)

lemma extractText_browser:
  "extractText (browser\<lparr>parseFragment := parse\<rparr>) ns = textContent ns"
  by (simp add: extractText_def browser_def)

lemma isParagraph_insertBelow [simp]: "isParagraph (insertBelow n) = isParagraph n"
  by (cases n) simp_all

lemma insertAfterP_Cons:
  "insertAfterP (n # ns) =
     insertBelow n # (if isParagraph n \<and> ns \<noteq> [] then [Text [LF]] else []) @ insertAfterP ns"
  by (cases ns) simp_all

lemma separated_Cons:
  "separated (n # ns) \<longleftrightarrow>
     (if isParagraph n \<and> ns \<noteq> [] then hd ns = Text [LF] else True) \<and>
     separatedBelow n \<and> separated ns"
  by (cases ns) auto

lemma separated_insertAfterP:
  "separated (insertAfterP ns)"
  "separatedBelow (insertBelow n)"
proof (induction ns and n rule: insertAfterP_insertBelow.induct)
  case (3 n m ns)
  obtain k ks where k: "insertAfterP (m # ns) = k # ks"
    using insertAfterP_Cons [of m ns] by simp
  show ?case
  proof (cases "isParagraph n")
    case True
    with 3 k show ?thesis by simp
  next
    case False
    with 3 k show ?thesis by simp
  qed
qed simp_all

lemma separated_processLineBreaks: "separated (processLineBreaks ns)"
  by (simp add: processLineBreaks_def separated_insertAfterP(1))

lemma isParagraph_replaceBr [simp]: "isParagraph (replaceBr n) = isParagraph n"
  by (cases n) (simp_all add: br_not_p)

lemma textContent_separated:
  "textContent (insertAfterP (map replaceBr ns)) = separatedText ns"
  "descendantText (insertBelow (replaceBr n)) = separatedTextBelow n"
proof (induction ns and n rule: separatedText_separatedTextBelow.induct)
  case 1
  show ?case by (simp add: textContent_def)
next
  case (2 n)
  then show ?case by (simp add: textContent_def)
next
  case (3 n m ns)
  then show ?case by (simp add: textContent_Cons)
next
  case (4 name children)
  then show ?case by (simp add: textContent_def)
qed simp_all

lemma textContent_processLineBreaks:
  "textContent (processLineBreaks ns) = separatedText ns"
  by (simp add: processLineBreaks_def textContent_separated(1))

lemma removeEmptyParagraphs_keep:
  "\<not> list_ex hasEmptyParagraph ns \<Longrightarrow> removeEmptyParagraphs ns = ns"
  by (induction ns rule: removeEmptyParagraphs.induct) auto

lemmas browser_defs = browser_def parseHTML_def tagToken_def tagName_def asciiLower_def
  namedReferences_def voidElements_def extractText_def

lemmas htmlToText_defs = processLineBreaks_def isEmptyContent_def textContent_def trim_def
  isWhiteSpace_def cleanupText_def replaceNbsp_def

text \<open>
  C5. Every \<open>br\<close> element becomes a newline at its place in the text, and none is left.
  After \<open>processLineBreaks\<close>, in every list of siblings at any depth, a paragraph element
  with a next sibling is directly followed by a text node of one newline, and the text of
  the tree is the text flow in which one newline follows each such paragraph; where no
  paragraph is empty the result is that text cleaned up. For paragraphs that follow one
  another as the children of \<open>tempDiv\<close> the text is the texts of the paragraphs with one
  newline between them, and for paragraphs of one trimmed line each the result is those
  lines with exactly one newline between them. So \<open>'<p>Hello</p><p>World</p>'\<close> gives
  \<open>'Hello\nWorld'\<close>, \<open>'Line1<br>Line2'\<close> gives \<open>'Line1\nLine2'\<close>, and the paragraphs
  inside \<open>'<div><p>A</p><p>B</p></div>'\<close> give \<open>'A\nB'\<close>.
\<close>

theorem htmlToText_line_breaks:
  "textContent (map replaceBr ns) = concat (map textWithBreaks ns) \<and>
   \<not> list_ex (hasElement (js ''br'')) (processLineBreaks ns) \<and>
   separated (processLineBreaks ns) \<and>
   textContent (processLineBreaks ns) = separatedText ns \<and>
   (doc \<noteq> [] \<and> \<not> list_ex hasEmptyParagraph (processLineBreaks (parse doc)) \<longrightarrow>
      htmlToText (browser\<lparr>parseFragment := parse\<rparr>) (Str doc) =
        cleanupText (separatedText (parse doc))) \<and>
   (list_all plainParagraph ps \<longrightarrow>
      textContent (removeEmptyParagraphs (processLineBreaks ps)) =
        joinWith [LF] (map textWithBreaks ps)) \<and>
   (html \<noteq> [] \<and> list_all plainParagraph (parse html) \<longrightarrow>
      htmlToText (browser\<lparr>parseFragment := parse\<rparr>) (Str html) =
        cleanupText (joinWith [LF] (map textWithBreaks (parse html)))) \<and>
   (html \<noteq> [] \<and> list_all plainParagraph (parse html) \<and>
    list_all cleanLine (map textWithBreaks (parse html)) \<longrightarrow>
      htmlToText (browser\<lparr>parseFragment := parse\<rparr>) (Str html) =
        replaceNbsp (joinWith [LF] (map textWithBreaks (parse html)))) \<and>
   htmlToText browser (Str (js ''<p>Hello</p><p>World</p>'')) = js ''Hello'' @ [LF] @ js ''World'' \<and>
   htmlToText browser (Str (js ''Line1<br>Line2'')) = js ''Line1'' @ [LF] @ js ''Line2'' \<and>
   htmlToText browser (Str (js ''<div><p>A</p><p>B</p></div>'')) = js ''A'' @ [LF] @ js ''B''"
proof (intro conjI impI)
  show "textContent (map replaceBr ns) = concat (map textWithBreaks ns)"
    by (rule textContent_replaceBr)
  show "\<not> list_ex (hasElement (js ''br'')) (processLineBreaks ns)"
    by (rule no_br_processLineBreaks)
  show "separated (processLineBreaks ns)"
    by (rule separated_processLineBreaks)
  show "textContent (processLineBreaks ns) = separatedText ns"
    by (rule textContent_processLineBreaks)
  show "htmlToText (browser\<lparr>parseFragment := parse\<rparr>) (Str doc) =
        cleanupText (separatedText (parse doc))"
    if "doc \<noteq> [] \<and> \<not> list_ex hasEmptyParagraph (processLineBreaks (parse doc))"
    using that
    by (simp add: extractText_browser removeEmptyParagraphs_keep textContent_processLineBreaks)
  show "textContent (removeEmptyParagraphs (processLineBreaks ps)) =
        joinWith [LF] (map textWithBreaks ps)" if "list_all plainParagraph ps"
    using that by (simp add: processLineBreaks_def paragraphs_joined)
  show "htmlToText (browser\<lparr>parseFragment := parse\<rparr>) (Str html) =
        cleanupText (joinWith [LF] (map textWithBreaks (parse html)))"
    if "html \<noteq> [] \<and> list_all plainParagraph (parse html)"
    using that by (simp add: extractText_browser processLineBreaks_def paragraphs_joined)
  show "htmlToText (browser\<lparr>parseFragment := parse\<rparr>) (Str html) =
        replaceNbsp (joinWith [LF] (map textWithBreaks (parse html)))"
    if "html \<noteq> [] \<and> list_all plainParagraph (parse html) \<and>
        list_all cleanLine (map textWithBreaks (parse html))"
    using that cleanupText_clean_lines [of "map textWithBreaks (parse html)"]
    by (simp add: extractText_browser processLineBreaks_def paragraphs_joined)
  show "htmlToText browser (Str (js ''<p>Hello</p><p>World</p>'')) = js ''Hello'' @ [LF] @ js ''World''"
    by (simp add: literals browser_defs htmlToText_defs)
  show "htmlToText browser (Str (js ''Line1<br>Line2'')) = js ''Line1'' @ [LF] @ js ''Line2''"
    by (simp add: literals browser_defs htmlToText_defs)
  show "htmlToText browser (Str (js ''<div><p>A</p><p>B</p></div>'')) = js ''A'' @ [LF] @ js ''B''"
    by (simp add: literals browser_defs htmlToText_defs)
qed

theorem htmlToText_line_breaks_witness:
  "js ''<p>Hello</p><p>World</p>'' \<noteq> [] \<and>
   parseHTML (js ''<p>Hello</p><p>World</p>'') =
     [Element (js ''p'') [Text (js ''Hello'')], Element (js ''p'') [Text (js ''World'')]] \<and>
   list_all plainParagraph
     [Element (js ''p'') [Text (js ''Hello'')], Element (js ''p'') [Text (js ''World'')]] \<and>
   list_all cleanLine [js ''Hello'', js ''World''] \<and>
   textContent (removeEmptyParagraphs (processLineBreaks
     [Element (js ''p'') [Text (js ''Hello'')], Element (js ''p'') [Text (js ''World'')]])) =
     js ''Hello'' @ [LF] @ js ''World'' \<and>
   htmlToText (browser\<lparr>parseFragment := parseHTML\<rparr>) (Str (js ''<p>Hello</p><p>World</p>'')) =
     js ''Hello'' @ [LF] @ js ''World'' \<and>
   js ''x<div><p>A</p><p>B</p>y</div>'' \<noteq> [] \<and>
   parseHTML (js ''x<div><p>A</p><p>B</p>y</div>'') =
     [Text (js ''x''), Element (js ''div'')
        [Element (js ''p'') [Text (js ''A'')], Element (js ''p'') [Text (js ''B'')],
         Text (js ''y'')]] \<and>
   processLineBreaks
     [Text (js ''x''), Element (js ''div'')
        [Element (js ''p'') [Text (js ''A'')], Element (js ''p'') [Text (js ''B'')],
         Text (js ''y'')]] =
     [Text (js ''x''), Element (js ''div'')
        [Element (js ''p'') [Text (js ''A'')], Text [LF],
         Element (js ''p'') [Text (js ''B'')], Text [LF], Text (js ''y'')]] \<and>
   separated
     [Text (js ''x''), Element (js ''div'')
        [Element (js ''p'') [Text (js ''A'')], Text [LF],
         Element (js ''p'') [Text (js ''B'')], Text [LF], Text (js ''y'')]] \<and>
   \<not> list_ex hasEmptyParagraph
     [Text (js ''x''), Element (js ''div'')
        [Element (js ''p'') [Text (js ''A'')], Text [LF],
         Element (js ''p'') [Text (js ''B'')], Text [LF], Text (js ''y'')]] \<and>
   htmlToText (browser\<lparr>parseFragment := parseHTML\<rparr>) (Str (js ''x<div><p>A</p><p>B</p>y</div>'')) =
     js ''xA'' @ [LF] @ js ''B'' @ [LF] @ js ''y''"
proof -
  let ?ps = "[Element (js ''p'') [Text (js ''Hello'')], Element (js ''p'') [Text (js ''World'')]]"
  let ?ns = "[Text (js ''x''), Element (js ''div'')
        [Element (js ''p'') [Text (js ''A'')], Element (js ''p'') [Text (js ''B'')],
         Text (js ''y'')]]"
  let ?ms = "[Text (js ''x''), Element (js ''div'')
        [Element (js ''p'') [Text (js ''A'')], Text [LF],
         Element (js ''p'') [Text (js ''B'')], Text [LF], Text (js ''y'')]]"
  have a: "parseHTML (js ''<p>Hello</p><p>World</p>'') = ?ps"
    by (simp add: literals browser_defs)
  have b: "list_all plainParagraph ?ps"
    by (simp add: plainParagraph_def literals htmlToText_defs)
  have c: "list_all cleanLine [js ''Hello'', js ''World'']"
    by (simp add: cleanLine_def endsWithWhiteSpace_def literals isWhiteSpace_def)
  have d: "js ''<p>Hello</p><p>World</p>'' \<noteq> []" by (simp add: js_def)
  have e: "parseHTML (js ''x<div><p>A</p><p>B</p>y</div>'') = ?ns"
    by (simp add: literals browser_defs)
  have f: "processLineBreaks ?ns = ?ms"
    by (simp add: literals processLineBreaks_def)
  have g: "\<not> list_ex hasEmptyParagraph ?ms"
    by (simp add: literals htmlToText_defs)
  have h: "js ''x<div><p>A</p><p>B</p>y</div>'' \<noteq> []" by (simp add: js_def)
  have i: "cleanupText (separatedText ?ns) = js ''xA'' @ [LF] @ js ''B'' @ [LF] @ js ''y''"
    by (simp add: literals htmlToText_defs)
  have 5: "map textWithBreaks ?ps = [js ''Hello'', js ''World'']" by (simp add: js_def)
  have 6: "joinWith [LF] [js ''Hello'', js ''World''] = js ''Hello'' @ [LF] @ js ''World''"
    by simp
  have 7: "replaceNbsp (js ''Hello'' @ [LF] @ js ''World'') = js ''Hello'' @ [LF] @ js ''World''"
    by (simp add: literals replaceNbsp_def)
  have b': "list_all plainParagraph (parseHTML (js ''<p>Hello</p><p>World</p>''))"
    unfolding a by (rule b)
  have c': "list_all cleanLine (map textWithBreaks (parseHTML (js ''<p>Hello</p><p>World</p>'')))"
    unfolding a 5 by (rule c)
  have g': "\<not> list_ex hasEmptyParagraph
      (processLineBreaks (parseHTML (js ''x<div><p>A</p><p>B</p>y</div>'')))"
    unfolding e f by (rule g)
  note t = htmlToText_line_breaks [of ?ns "js ''x<div><p>A</p><p>B</p>y</div>''" parseHTML ?ps
      "js ''<p>Hello</p><p>World</p>''"]
  from t have "separated (processLineBreaks ?ns)" by blast
  then have r1: "separated ?ms" by (simp only: f)
  from t h g' have "htmlToText (browser\<lparr>parseFragment := parseHTML\<rparr>)
      (Str (js ''x<div><p>A</p><p>B</p>y</div>'')) =
      cleanupText (separatedText (parseHTML (js ''x<div><p>A</p><p>B</p>y</div>'')))"
    by blast
  then have r2: "htmlToText (browser\<lparr>parseFragment := parseHTML\<rparr>)
      (Str (js ''x<div><p>A</p><p>B</p>y</div>'')) = js ''xA'' @ [LF] @ js ''B'' @ [LF] @ js ''y''"
    by (simp only: e i)
  from t b have "textContent (removeEmptyParagraphs (processLineBreaks ?ps)) =
      joinWith [LF] (map textWithBreaks ?ps)" by blast
  then have r3: "textContent (removeEmptyParagraphs (processLineBreaks ?ps)) =
      js ''Hello'' @ [LF] @ js ''World''"
    by (simp only: 5 6)
  from t d b' c' have "htmlToText (browser\<lparr>parseFragment := parseHTML\<rparr>)
      (Str (js ''<p>Hello</p><p>World</p>'')) =
      replaceNbsp (joinWith [LF] (map textWithBreaks (parseHTML (js ''<p>Hello</p><p>World</p>''))))"
    by blast
  then have r4: "htmlToText (browser\<lparr>parseFragment := parseHTML\<rparr>)
      (Str (js ''<p>Hello</p><p>World</p>'')) = js ''Hello'' @ [LF] @ js ''World''"
    by (simp only: a 5 6 7)
  from d a b c r3 r4 h e f r1 g r2 show ?thesis by (intro conjI)
qed

section \<open>Empty paragraphs\<close>

lemma isWhiteSpace_NBSP [simp]: "isWhiteSpace NBSP"
  by (simp add: isWhiteSpace_def NBSP_def)

lemma isEmptyContent_iff: "isEmptyContent t \<longleftrightarrow> list_all isWhiteSpace t"
proof -
  have "trim t \<noteq> [NBSP]"
    using trim_no_start [of t] by (cases "trim t") auto
  then show ?thesis by (simp add: isEmptyContent_def trim_eq_Nil_iff list_all_iff)
qed

lemma isEmptyContent_visibleChars: "isEmptyContent t \<longleftrightarrow> visibleChars t = []"
  by (simp add: isEmptyContent_iff visibleChars_def filter_empty_conv list_all_iff)

lemma visibleChars_append [simp]: "visibleChars (s @ t) = visibleChars s @ visibleChars t"
  by (simp add: visibleChars_def)

lemma textContent_Element:
  "textContent (Element name children # ns) = textContent children @ textContent ns"
  by (simp add: textContent_def)

lemma visibleChars_removeEmptyParagraphs:
  "visibleChars (textContent (removeEmptyParagraphs ns)) = visibleChars (textContent ns)"
proof (induction ns rule: removeEmptyParagraphs.induct)
  case 1
  show ?case by simp
next
  case (2 name children ns)
  show ?case
  proof (cases "name = js ''p'' \<and> isEmptyContent (textContent children)")
    case True
    then have "visibleChars (textContent children) = []"
      by (simp add: isEmptyContent_visibleChars)
    with True 2(1) show ?thesis by (simp add: textContent_Element)
  next
    case False
    with 2(2,3) show ?thesis by (auto simp: textContent_Element)
  qed
qed (simp_all add: textContent_Cons)

lemma removeEmptyParagraphs_complete:
  "\<not> list_ex hasEmptyParagraph (removeEmptyParagraphs ns)"
proof (induction ns rule: removeEmptyParagraphs.induct)
  case 1
  show ?case by simp
next
  case (2 name children ns)
  show ?case
  proof (cases "name = js ''p'' \<and> isEmptyContent (textContent children)")
    case True
    with 2(1) show ?thesis by simp
  next
    case False
    then have "\<not> (name = js ''p'' \<and> isEmptyContent (textContent (removeEmptyParagraphs children)))"
      by (simp add: isEmptyContent_visibleChars visibleChars_removeEmptyParagraphs)
    with False 2(2,3) show ?thesis by simp
  qed
qed simp_all


lemma visibleChars_LF [simp]: "visibleChars (LF # t) = visibleChars t"
  by (simp add: visibleChars_def)

lemma visibleChars_insertAfterP:
  "visibleChars (textContent (insertAfterP ns)) = visibleChars (textContent ns)"
  "visibleChars (descendantText (insertBelow n)) = visibleChars (descendantText n)"
proof (induction ns and n rule: insertAfterP_insertBelow.induct)
  case (4 name children)
  then show ?case by (simp add: textContent_def)
qed (simp_all add: textContent_Cons)

lemma empty_paragraph_leaves_newline:
  assumes "isParagraph q" and "isEmptyContent (textWithBreaks q)"
  shows "removeEmptyParagraphs (processLineBreaks (q # n # ms)) =
         Text [LF] # removeEmptyParagraphs (processLineBreaks (n # ms))"
proof -
  from assms(1) obtain children where q: "q = Element (js ''p'') children"
    by (cases q) simp_all
  have r: "replaceBr q = Element (js ''p'') (map replaceBr children)"
    using q br_not_p by simp
  have "visibleChars (textContent (insertAfterP (map replaceBr children))) =
        visibleChars (textWithBreaks q)"
    using q br_not_p by (simp add: visibleChars_insertAfterP(1) textContent_replaceBr)
  with assms(2) have e: "isEmptyContent (textContent (insertAfterP (map replaceBr children)))"
    by (simp add: isEmptyContent_visibleChars)
  have "processLineBreaks (q # n # ms) =
        Element (js ''p'') (insertAfterP (map replaceBr children)) # Text [LF] #
          processLineBreaks (n # ms)"
    by (simp add: processLineBreaks_def r)
  with e show ?thesis by simp
qed

text \<open>
  C6. After \<open>removeEmptyParagraphs\<close> no paragraph element is left whose text is empty
  after trimming or is a single non-breaking space, and nothing but whitespace is lost. The
  removal comes after the newlines are put behind the paragraphs: an empty paragraph with
  a next sibling is removed, and the newline put behind it stays. So \<open>'A<p>&nbsp;</p>B'\<close>
  gives \<open>'A\nB'\<close>, and \<open>'<p>&nbsp;</p><p>Content</p>'\<close> gives \<open>'Content'\<close>.
\<close>

theorem htmlToText_empty_paragraphs:
  "\<not> list_ex hasEmptyParagraph (removeEmptyParagraphs ns) \<and>
   visibleChars (textContent (removeEmptyParagraphs ns)) = visibleChars (textContent ns) \<and>
   (isParagraph q \<and> isEmptyContent (textWithBreaks q) \<longrightarrow>
      removeEmptyParagraphs (processLineBreaks (q # n # ms)) =
        Text [LF] # removeEmptyParagraphs (processLineBreaks (n # ms))) \<and>
   htmlToText browser (Str (js ''A<p>&nbsp;</p>B'')) = js ''A'' @ [LF] @ js ''B'' \<and>
   htmlToText browser (Str (js ''<p>&nbsp;</p><p>Content</p>'')) = js ''Content''"
proof (intro conjI impI)
  show "\<not> list_ex hasEmptyParagraph (removeEmptyParagraphs ns)"
    by (rule removeEmptyParagraphs_complete)
  show "visibleChars (textContent (removeEmptyParagraphs ns)) = visibleChars (textContent ns)"
    by (rule visibleChars_removeEmptyParagraphs)
  show "removeEmptyParagraphs (processLineBreaks (q # n # ms)) =
        Text [LF] # removeEmptyParagraphs (processLineBreaks (n # ms))"
    if "isParagraph q \<and> isEmptyContent (textWithBreaks q)"
    using that empty_paragraph_leaves_newline by blast
  show "htmlToText browser (Str (js ''A<p>&nbsp;</p>B'')) = js ''A'' @ [LF] @ js ''B''"
    by (simp add: literals browser_defs htmlToText_defs)
  show "htmlToText browser (Str (js ''<p>&nbsp;</p><p>Content</p>'')) = js ''Content''"
    by (simp add: literals browser_defs htmlToText_defs)
qed

theorem htmlToText_empty_paragraphs_witness:
  "parseHTML (js ''<p>&nbsp;</p><p>Content</p>'') =
     [Element (js ''p'') [Text [NBSP]], Element (js ''p'') [Text (js ''Content'')]] \<and>
   isParagraph (Element (js ''p'') [Text [NBSP]]) \<and>
   isEmptyContent (textWithBreaks (Element (js ''p'') [Text [NBSP]])) \<and>
   removeEmptyParagraphs (processLineBreaks
     [Element (js ''p'') [Text [NBSP]], Element (js ''p'') [Text (js ''Content'')]]) =
     [Text [LF], Element (js ''p'') [Text (js ''Content'')]] \<and>
   list_ex hasEmptyParagraph
     [Element (js ''p'') [Text [NBSP]], Element (js ''p'') [Text (js ''Content'')]]"
proof -
  let ?q = "Element (js ''p'') [Text [NBSP]]"
  let ?n = "Element (js ''p'') [Text (js ''Content'')]"
  have a: "parseHTML (js ''<p>&nbsp;</p><p>Content</p>'') = [?q, ?n]"
    by (simp add: literals browser_defs)
  have b: "isParagraph ?q" by simp
  have c: "isEmptyContent (textWithBreaks ?q)"
    by (simp add: literals htmlToText_defs)
  have d: "removeEmptyParagraphs (processLineBreaks [?n]) = [?n]"
    by (simp add: literals htmlToText_defs)
  have e: "list_ex hasEmptyParagraph [?q, ?n]"
    by (simp add: literals htmlToText_defs)
  from htmlToText_empty_paragraphs [of "[?q, ?n]" ?q ?n "[]"] a b c d e
  show ?thesis by (simp del: htmlToText.simps removeEmptyParagraphs.simps)
qed

section \<open>Paragraphs and their order\<close>

lemma matchSeparator_Cons:
  "matchSeparator (c # cs) =
     (if c = LF \<and> LF \<in> set (takeWhile isWhiteSpace cs)
      then Some (drop (length (takeWhile isWhiteSpace cs)
                  - length (takeWhile (\<lambda>x. x \<noteq> LF) (rev (takeWhile isWhiteSpace cs)))) cs)
      else None)"
  by (simp add: matchSeparator_def Let_def)

lemma endsWithWhiteSpace_iff:
  "endsWithWhiteSpace s \<longleftrightarrow> s \<noteq> [] \<and> isWhiteSpace (last s)"
  by (cases s rule: rev_cases) (simp_all add: endsWithWhiteSpace_def)

lemma takeWhile_ws_append:
  assumes "v \<noteq> []" and "\<not> isWhiteSpace (last v)"
  shows "takeWhile isWhiteSpace (v @ r) = takeWhile isWhiteSpace v"
proof -
  from assms have "last v \<in> set v" "\<not> isWhiteSpace (last v)" by simp_all
  then show ?thesis by (intro takeWhile_append1) auto
qed

text \<open>Inside the text of a paragraph nothing matches the separator.\<close>

lemma splitParagraphs_paragraph:
  "\<not> hasBlankLine p \<Longrightarrow> \<not> endsWithWhiteSpace p \<Longrightarrow>
   splitParagraphs acc (p @ r) = splitParagraphs (rev p @ acc) r"
proof (induction p arbitrary: acc)
  case Nil
  show ?case by simp
next
  case (Cons c v)
  have none: "matchSeparator (c # v @ r) = None"
  proof (cases "c = LF")
    case False
    then show ?thesis by (simp add: matchSeparator_Cons)
  next
    case True
    with Cons.prems(2) have v: "v \<noteq> []" "\<not> isWhiteSpace (last v)"
      by (auto simp: endsWithWhiteSpace_iff split: if_splits)
    from Cons.prems(1) True have "LF \<notin> set (takeWhile isWhiteSpace v)" by simp
    with takeWhile_ws_append [OF v] show ?thesis by (simp add: matchSeparator_Cons)
  qed
  from Cons.prems have "\<not> hasBlankLine v" "\<not> endsWithWhiteSpace v"
    by (auto simp: endsWithWhiteSpace_iff split: if_splits)
  from Cons.IH [OF this, of "c # acc"] none show ?case by simp
qed

lemma takeWhile_ws_all:
  assumes "list_all isWhiteSpace w" and "\<not> startsWithWhiteSpace s"
  shows "takeWhile isWhiteSpace (w @ s) = w"
proof -
  from assms(2) have "takeWhile isWhiteSpace s = []" by (cases s) simp_all
  with assms(1) show ?thesis by (simp add: takeWhile_append2 list_all_iff)
qed

text \<open>Whitespace with fewer than two newlines holds no separator.\<close>

lemma splitParagraphs_gap:
  "list_all isWhiteSpace w \<Longrightarrow> count_list w LF < 2 \<Longrightarrow> \<not> startsWithWhiteSpace s \<Longrightarrow>
   splitParagraphs acc (w @ s) = splitParagraphs (rev w @ acc) s"
proof (induction w arbitrary: acc)
  case Nil
  show ?case by simp
next
  case (Cons c w)
  from Cons.prems have w: "list_all isWhiteSpace w" "count_list w LF < 2"
    by (simp_all split: if_splits)
  have "\<not> (c = LF \<and> LF \<in> set w)"
    using Cons.prems(2) by (auto simp: count_list_0_iff split: if_splits)
  then have "matchSeparator (c # w @ s) = None"
    using takeWhile_ws_all [OF w(1) Cons.prems(3)] by (simp add: matchSeparator_Cons)
  with Cons.IH [OF w Cons.prems(3), of "c # acc"] show ?case by simp
qed


lemma drop_after_last:
  "drop (length xs - length (takeWhile P (rev xs))) xs = rev (takeWhile P (rev xs))"
proof -
  have "xs = rev (dropWhile P (rev xs)) @ rev (takeWhile P (rev xs))"
    by (metis rev_append rev_rev_ident takeWhile_dropWhile_id)
  moreover have "length (rev (dropWhile P (rev xs))) = length xs - length (takeWhile P (rev xs))"
    by (metis add_diff_cancel_left' length_append length_rev takeWhile_dropWhile_id)
  ultimately show ?thesis by (metis append_eq_conv_conj)
qed

text \<open>
  Whitespace with two newlines or more holds one separator: what was read before ends a
  piece, with whitespace behind it, and the next piece starts with whitespace.
\<close>

lemma splitParagraphs_blankLineRun:
  "list_all isWhiteSpace w \<Longrightarrow> 2 \<le> count_list w LF \<Longrightarrow> \<not> startsWithWhiteSpace s \<Longrightarrow>
   \<exists>u v. list_all isWhiteSpace u \<and> list_all isWhiteSpace v \<and>
     splitParagraphs acc (w @ s) = (rev acc @ u) # splitParagraphs (rev v) s"
proof (induction w arbitrary: acc)
  case Nil
  then show ?case by simp
next
  case (Cons c w)
  from Cons.prems(1) have w: "list_all isWhiteSpace w" by simp
  note tw = takeWhile_ws_all [OF w Cons.prems(3)]
  show ?case
  proof (cases "c = LF \<and> LF \<in> set w")
    case True
    define v where "v = rev (takeWhile (\<lambda>x. x \<noteq> LF) (rev w))"
    have "set v \<subseteq> set w" unfolding v_def by (auto dest: set_takeWhileD)
    with w have v: "list_all isWhiteSpace v" by (auto simp: list_all_iff)
    have "LF \<notin> set v" unfolding v_def by (auto dest: set_takeWhileD)
    then have c: "count_list v LF < 2" by (simp add: count_list_0_iff)
    have "length w - length (takeWhile (\<lambda>x. x \<noteq> LF) (rev w)) \<le> length w" by simp
    then have "drop (length w - length (takeWhile (\<lambda>x. x \<noteq> LF) (rev w))) (w @ s) = v @ s"
      by (simp add: v_def drop_after_last)
    with True tw have "matchSeparator (c # w @ s) = Some (v @ s)"
      by (simp add: matchSeparator_Cons)
    then have "splitParagraphs acc ((c # w) @ s) = (rev acc @ []) # splitParagraphs (rev v) s"
      using splitParagraphs_gap [OF v c Cons.prems(3), of "[]"] by simp
    moreover have "list_all isWhiteSpace ([]::jsstring)" by simp
    ultimately show ?thesis using v by blast
  next
    case False
    with tw have none: "matchSeparator (c # w @ s) = None" by (simp add: matchSeparator_Cons)
    have "c \<noteq> LF"
    proof
      assume "c = LF"
      with False have "count_list w LF = 0" by (simp add: count_list_0_iff)
      with \<open>c = LF\<close> Cons.prems(2) show False by simp
    qed
    with Cons.prems(2) have "2 \<le> count_list w LF" by simp
    from Cons.IH [OF w this Cons.prems(3), of "c # acc"]
    obtain u v where uv: "list_all isWhiteSpace u" "list_all isWhiteSpace v"
      "splitParagraphs (c # acc) (w @ s) = (rev (c # acc) @ u) # splitParagraphs (rev v) s"
      by blast
    from Cons.prems(1) uv(1) have "list_all isWhiteSpace (c # u)" by simp
    moreover from none uv(3)
    have "splitParagraphs acc ((c # w) @ s) = (rev acc @ c # u) # splitParagraphs (rev v) s"
      by simp
    ultimately show ?thesis using uv(2) by blast
  qed
qed

lemma trim_append_ws: "list_all isWhiteSpace u \<Longrightarrow> trim (x @ u) = trim x"
proof (induction u rule: rev_induct)
  case Nil
  show ?case by simp
next
  case (snoc c u)
  then have "trim ((x @ u) @ [c]) = trim (x @ u)" by (intro trim_ws_snoc) simp
  with snoc show ?case by simp
qed

lemma trim_prepend_ws: "list_all isWhiteSpace u \<Longrightarrow> trim (u @ x) = trim x"
  by (induction u) (simp_all add: trim_ws_Cons)

lemma trim_ws_only: "list_all isWhiteSpace u \<Longrightarrow> trim u = []"
  by (simp add: trim_eq_Nil_iff list_all_iff)

lemma trim_paragraph: "paragraphText q \<Longrightarrow> list_all isWhiteSpace v \<Longrightarrow> trim (v @ q) = q"
  by (simp add: trim_prepend_ws paragraphText_def trim_fixed)

lemma sectionsFrom_Nil: "sectionsFrom acc [] = filter (\<lambda>x. x \<noteq> []) [trim (rev acc)]"
  by (simp add: sectionsFrom_def)

lemma sectionsFrom_trailing:
  assumes "list_all isWhiteSpace w"
  shows "sectionsFrom acc w = filter (\<lambda>x. x \<noteq> []) [trim (rev acc)]"
proof (cases "count_list w LF < 2")
  case True
  from splitParagraphs_gap [OF assms True, of "[]" acc]
  show ?thesis using assms by (simp add: sectionsFrom_def trim_append_ws)
next
  case False
  then have "2 \<le> count_list w LF" by simp
  from splitParagraphs_blankLineRun [OF assms this, of "[]" acc]
  obtain u v where "list_all isWhiteSpace u" "list_all isWhiteSpace v"
    "splitParagraphs acc w = (rev acc @ u) # splitParagraphs (rev v) []"
    by auto
  then show ?thesis by (simp add: sectionsFrom_def trim_append_ws trim_ws_only)
qed

lemma sectionsFrom_paragraphs:
  "list_all (\<lambda>(w, q). blankLineRun w \<and> paragraphText q) sps \<Longrightarrow>
   list_all isWhiteSpace trail \<Longrightarrow>
   sectionsFrom acc (concat (map (\<lambda>(w, q). w @ q) sps) @ trail) =
   filter (\<lambda>x. x \<noteq> []) [trim (rev acc)] @ map snd sps"
proof (induction sps arbitrary: acc)
  case Nil
  then show ?case by (simp add: sectionsFrom_trailing)
next
  case (Cons wq sps)
  obtain w q where wq: "wq = (w, q)" by (cases wq)
  with Cons.prems(1) have w: "list_all isWhiteSpace w" "2 \<le> count_list w LF"
    and q: "paragraphText q"
    and rest: "list_all (\<lambda>(w, q). blankLineRun w \<and> paragraphText q) sps"
    by (simp_all add: blankLineRun_def)
  let ?X = "concat (map (\<lambda>(w, q). w @ q) sps) @ trail"
  from q have s: "\<not> startsWithWhiteSpace (q @ ?X)"
    by (simp add: paragraphText_def startsWithWhiteSpace_append)
  from splitParagraphs_blankLineRun [OF w s, of acc]
  obtain u v where uv: "list_all isWhiteSpace u" "list_all isWhiteSpace v"
    "splitParagraphs acc (w @ q @ ?X) = (rev acc @ u) # splitParagraphs (rev v) (q @ ?X)"
    by blast
  from q have "splitParagraphs (rev v) (q @ ?X) = splitParagraphs (rev q @ rev v) ?X"
    by (intro splitParagraphs_paragraph) (simp_all add: paragraphText_def)
  with uv(3) have "sectionsFrom acc (w @ q @ ?X) =
      filter (\<lambda>x. x \<noteq> []) [trim (rev acc @ u)] @ sectionsFrom (rev q @ rev v) ?X"
    by (simp add: sectionsFrom_def)
  also have "sectionsFrom (rev q @ rev v) ?X = filter (\<lambda>x. x \<noteq> []) [trim (v @ q)] @ map snd sps"
    using Cons.IH [OF rest Cons.prems(2), of "rev q @ rev v"] by simp
  also have "trim (v @ q) = q" by (rule trim_paragraph [OF q uv(2)])
  finally show ?case using uv(1) q wq
    by (simp add: trim_append_ws paragraphText_def)
qed

lemma sectionsFrom_leading:
  assumes "list_all isWhiteSpace lead" and "\<not> startsWithWhiteSpace s"
  shows "\<exists>v. list_all isWhiteSpace v \<and> sectionsFrom [] (lead @ s) = sectionsFrom (rev v) s"
proof (cases "count_list lead LF < 2")
  case True
  from splitParagraphs_gap [OF assms(1) True assms(2), of "[]"] assms(1)
  show ?thesis by (auto simp: sectionsFrom_def)
next
  case False
  then have "2 \<le> count_list lead LF" by simp
  from splitParagraphs_blankLineRun [OF assms(1) this assms(2), of "[]"]
  obtain u v where "list_all isWhiteSpace u" "list_all isWhiteSpace v"
    "splitParagraphs [] (lead @ s) = ([] @ u) # splitParagraphs (rev v) s"
    by auto
  then show ?thesis by (auto simp: sectionsFrom_def trim_ws_only)
qed

lemma sections_of_paragraphs:
  assumes "list_all isWhiteSpace lead" and "paragraphText p"
    and "list_all (\<lambda>(w, q). blankLineRun w \<and> paragraphText q) sps"
    and "list_all isWhiteSpace trail"
  shows "sectionsFrom [] (lead @ p @ concat (map (\<lambda>(w, q). w @ q) sps) @ trail) =
         p # map snd sps"
proof -
  let ?X = "concat (map (\<lambda>(w, q). w @ q) sps) @ trail"
  from assms(2) have "\<not> startsWithWhiteSpace (p @ ?X)"
    by (simp add: paragraphText_def startsWithWhiteSpace_append)
  from sectionsFrom_leading [OF assms(1) this]
  obtain v where v: "list_all isWhiteSpace v"
    "sectionsFrom [] (lead @ p @ ?X) = sectionsFrom (rev v) (p @ ?X)"
    by blast
  from assms(2) have "splitParagraphs (rev v) (p @ ?X) = splitParagraphs (rev p @ rev v) ?X"
    by (intro splitParagraphs_paragraph) (simp_all add: paragraphText_def)
  then have "sectionsFrom (rev v) (p @ ?X) = sectionsFrom (rev p @ rev v) ?X"
    by (simp add: sectionsFrom_def)
  also have "\<dots> = filter (\<lambda>x. x \<noteq> []) [trim (v @ p)] @ map snd sps"
    using sectionsFrom_paragraphs [OF assms(3,4), of "rev p @ rev v"] by simp
  also have "trim (v @ p) = p" by (rule trim_paragraph [OF assms(2) v(1)])
  finally show ?thesis using v(2) assms(2) by (simp add: paragraphText_def)
qed


lemma trim_decompose:
  "\<exists>a b. list_all isWhiteSpace a \<and> list_all isWhiteSpace b \<and> x = a @ trim x @ b"
proof -
  define d where "d = dropWhile isWhiteSpace x"
  have 1: "x = takeWhile isWhiteSpace x @ d" by (simp add: d_def)
  have "d = rev (dropWhile isWhiteSpace (rev d)) @ rev (takeWhile isWhiteSpace (rev d))"
    by (metis rev_append rev_rev_ident takeWhile_dropWhile_id)
  then have 2: "d = trim x @ rev (takeWhile isWhiteSpace (rev d))"
    by (simp add: trim_def d_def)
  have "list_all isWhiteSpace (takeWhile isWhiteSpace x)"
    "list_all isWhiteSpace (rev (takeWhile isWhiteSpace (rev d)))"
    by (auto simp: list_all_iff dest: set_takeWhileD)
  with 1 2 show ?thesis by metis
qed

lemma blankLineRun_widen:
  "list_all isWhiteSpace b \<Longrightarrow> blankLineRun s \<Longrightarrow> list_all isWhiteSpace a \<Longrightarrow>
   blankLineRun (b @ s @ a)"
  by (simp add: blankLineRun_def)

text \<open>
  Paragraphs given with whitespace around them: the whitespace goes to the runs of blank
  lines beside them.
\<close>

lemma regroup_paragraphs:
  "list_all isWhiteSpace b \<Longrightarrow>
   list_all (\<lambda>(s, y). blankLineRun s \<and> paragraphText (trim y)) sys \<Longrightarrow>
   \<exists>sps trail. list_all isWhiteSpace trail \<and>
     list_all (\<lambda>(w, q). blankLineRun w \<and> paragraphText q) sps \<and>
     map snd sps = map (\<lambda>(s, y). trim y) sys \<and>
     b @ concat (map (\<lambda>(s, y). s @ y) sys) = concat (map (\<lambda>(w, q). w @ q) sps) @ trail"
proof (induction sys arbitrary: b)
  case Nil
  have "list_all (\<lambda>(w, q). blankLineRun w \<and> paragraphText q) []"
    "map snd [] = map (\<lambda>(s, y). trim y) ([]:: (jsstring \<times> jsstring) list)"
    "b @ concat (map (\<lambda>(s, y). s @ y) []) = concat (map (\<lambda>(w, q). w @ q) []) @ b"
    by simp_all
  with Nil(1) show ?case by blast
next
  case (Cons sy sys)
  obtain s y where sy: "sy = (s, y)" by (cases sy)
  with Cons.prems(2) have s: "blankLineRun s" and y: "paragraphText (trim y)"
    and rest: "list_all (\<lambda>(s, y). blankLineRun s \<and> paragraphText (trim y)) sys"
    by simp_all
  obtain a b' where ab: "list_all isWhiteSpace a" "list_all isWhiteSpace b'" "y = a @ trim y @ b'"
    using trim_decompose by blast
  from Cons.IH [OF ab(2) rest]
  obtain sps trail where IH: "list_all isWhiteSpace trail"
    "list_all (\<lambda>(w, q). blankLineRun w \<and> paragraphText q) sps"
    "map snd sps = map (\<lambda>(s, y). trim y) sys"
    "b' @ concat (map (\<lambda>(s, y). s @ y) sys) = concat (map (\<lambda>(w, q). w @ q) sps) @ trail"
    by blast
  let ?sps = "(b @ s @ a, trim y) # sps"
  have "list_all (\<lambda>(w, q). blankLineRun w \<and> paragraphText q) ?sps"
    using IH(2) y blankLineRun_widen [OF Cons.prems(1) s ab(1)] by simp
  moreover have "map snd ?sps = map (\<lambda>(s, y). trim y) (sy # sys)"
    using IH(3) sy by simp
  moreover have "b @ concat (map (\<lambda>(s, y). s @ y) (sy # sys)) =
      concat (map (\<lambda>(w, q). w @ q) ?sps) @ trail"
  proof -
    have "b @ concat (map (\<lambda>(s, y). s @ y) (sy # sys)) =
        b @ s @ y @ concat (map (\<lambda>(s, y). s @ y) sys)"
      by (simp add: sy)
    also have "\<dots> = b @ s @ (a @ trim y @ b') @ concat (map (\<lambda>(s, y). s @ y) sys)"
      using arg_cong [OF ab(3), of "\<lambda>z. b @ s @ z @ concat (map (\<lambda>(s, y). s @ y) sys)"]
      by simp
    also have "\<dots> = (b @ s @ a) @ trim y @ (b' @ concat (map (\<lambda>(s, y). s @ y) sys))"
      by simp
    also have "\<dots> = (b @ s @ a) @ trim y @ concat (map (\<lambda>(w, q). w @ q) sps) @ trail"
      by (simp only: IH(4))
    finally show ?thesis by simp
  qed
  ultimately show ?case using IH(1) by blast
qed

lemma sections_of_texts:
  assumes "paragraphText (trim x)"
    and "list_all (\<lambda>(s, y). blankLineRun s \<and> paragraphText (trim y)) sys"
  shows "sectionsFrom [] (x @ concat (map (\<lambda>(s, y). s @ y) sys)) =
         trim x # map (\<lambda>(s, y). trim y) sys"
proof -
  obtain a b where ab: "list_all isWhiteSpace a" "list_all isWhiteSpace b" "x = a @ trim x @ b"
    using trim_decompose by blast
  from regroup_paragraphs [OF ab(2) assms(2)]
  obtain sps trail where r: "list_all isWhiteSpace trail"
    "list_all (\<lambda>(w, q). blankLineRun w \<and> paragraphText q) sps"
    "map snd sps = map (\<lambda>(s, y). trim y) sys"
    "b @ concat (map (\<lambda>(s, y). s @ y) sys) = concat (map (\<lambda>(w, q). w @ q) sps) @ trail"
    by blast
  have "x @ concat (map (\<lambda>(s, y). s @ y) sys) =
        (a @ trim x @ b) @ concat (map (\<lambda>(s, y). s @ y) sys)"
    using arg_cong [OF ab(3), of "\<lambda>z. z @ concat (map (\<lambda>(s, y). s @ y) sys)"] by simp
  also have "\<dots> = a @ trim x @ (b @ concat (map (\<lambda>(s, y). s @ y) sys))" by simp
  also have "\<dots> = a @ trim x @ concat (map (\<lambda>(w, q). w @ q) sps) @ trail"
    by (simp only: r(4))
  finally show ?thesis
    using sections_of_paragraphs [OF ab(1) assms(1) r(2) r(1)] r(3) by simp
qed

text \<open>
  C7. A text of n paragraphs with a run of blank lines between each two, every paragraph
  not empty after trimming, gives exactly n fragments, one for each paragraph, in the
  order of the paragraphs. A paragraph is any text which, trimmed, is not empty and has no
  blank line inside; a run of blank lines is whitespace with at least two newlines.
\<close>

theorem textToCardHTMLs_paragraph_order:
  "paragraphText (trim x) \<and>
   list_all (\<lambda>(s, y). blankLineRun s \<and> paragraphText (trim y)) sys \<longrightarrow>
   textToCardHTMLs (Str (x @ concat (map (\<lambda>(s, y). s @ y) sys))) =
     RArray (map (\<lambda>y. centeredParagraph (cleanedLines y)) (x # map snd sys))"
proof
  assume a: "paragraphText (trim x) \<and>
    list_all (\<lambda>(s, y). blankLineRun s \<and> paragraphText (trim y)) sys"
  then have "trim x \<noteq> []" by (simp add: paragraphText_def)
  then have ne: "x @ concat (map (\<lambda>(s, y). s @ y) sys) \<noteq> []" by auto
  from a have "sectionsFrom [] (x @ concat (map (\<lambda>(s, y). s @ y) sys)) =
         trim x # map (\<lambda>(s, y). trim y) sys"
    using sections_of_texts by blast
  then have "map toCardHTML (sectionsFrom [] (x @ concat (map (\<lambda>(s, y). s @ y) sys))) =
      map (\<lambda>y. centeredParagraph (cleanedLines y)) (x # map snd sys)"
    by (simp add: toCardHTML_centered cleanedLines_trim comp_def case_prod_beta)
  with ne show "textToCardHTMLs (Str (x @ concat (map (\<lambda>(s, y). s @ y) sys))) =
     RArray (map (\<lambda>y. centeredParagraph (cleanedLines y)) (x # map snd sys))"
    by (simp add: sectionsFrom_def del: length_greater_0_conv)
qed

theorem textToCardHTMLs_paragraph_order_witness:
  "paragraphText (trim (js ''One'')) \<and>
   blankLineRun [LF, LF] \<and> paragraphText (trim (js ''Two'' @ [LF] @ js ''lines'')) \<and>
   blankLineRun ([LF] @ js '' '' @ [LF]) \<and> paragraphText (trim (js '' Three '')) \<and>
   textToCardHTMLs (Str (js ''One'' @ [LF, LF] @ js ''Two'' @ [LF] @ js ''lines'' @
       [LF] @ js '' '' @ [LF] @ js '' Three '')) =
     RArray [js ''<p style=\"text-align:center;\">One</p>'',
             js ''<p style=\"text-align:center;\">Two<br>lines</p>'',
             js ''<p style=\"text-align:center;\">Three</p>'']"
proof -
  have a: "paragraphText (trim (js ''One''))"
    by (simp add: paragraphText_def endsWithWhiteSpace_def literals trim_def isWhiteSpace_def)
  have b: "blankLineRun [LF, LF]" by (simp add: blankLineRun_def)
  have c: "paragraphText (trim (js ''Two'' @ [LF] @ js ''lines''))"
    by (simp add: paragraphText_def endsWithWhiteSpace_def literals trim_def isWhiteSpace_def)
  have d: "blankLineRun ([LF] @ js '' '' @ [LF])"
    by (simp add: blankLineRun_def literals isWhiteSpace_def)
  have e: "paragraphText (trim (js '' Three ''))"
    by (simp add: paragraphText_def endsWithWhiteSpace_def literals trim_def isWhiteSpace_def)
  have f: "map (\<lambda>y. centeredParagraph (cleanedLines y))
      [js ''One'', js ''Two'' @ [LF] @ js ''lines'', js '' Three ''] =
     [js ''<p style=\"text-align:center;\">One</p>'',
      js ''<p style=\"text-align:center;\">Two<br>lines</p>'',
      js ''<p style=\"text-align:center;\">Three</p>'']"
    by (simp add: centeredParagraph_def cleanedLines_def literals trim_def isWhiteSpace_def)
  from textToCardHTMLs_paragraph_order [of "js ''One''"
      "[([LF, LF], js ''Two'' @ [LF] @ js ''lines''), ([LF] @ js '' '' @ [LF], js '' Three '')]"]
    a b c d e
  have "textToCardHTMLs (Str (js ''One'' @ [LF, LF] @ js ''Two'' @ [LF] @ js ''lines'' @
       [LF] @ js '' '' @ [LF] @ js '' Three '')) =
     RArray (map (\<lambda>y. centeredParagraph (cleanedLines y))
      [js ''One'', js ''Two'' @ [LF] @ js ''lines'', js '' Three ''])"
    by (simp del: textToCardHTMLs.simps)
  with a b c d e show ?thesis unfolding f by (simp del: textToCardHTMLs.simps)
qed

section \<open>The round trip\<close>

lemma decodeReferences_plain: "0x26 \<notin> set l \<Longrightarrow> decodeReferences l = l"
  by (induction l) simp_all

lemma tokenize_text:
  assumes "l \<noteq> []" and "0x3C \<notin> set l" and "0x26 \<notin> set l"
    and "takeWhile (\<lambda>x. x \<noteq> 0x3C) r = []"
  shows "tokenize (l @ r) = Characters l # tokenize r"
proof -
  from assms(1) obtain c l' where l: "l = c # l'" by (cases l) simp_all
  with assms(2) have c: "c \<noteq> 0x3C" and l': "\<forall>x\<in>set l'. x \<noteq> 0x3C" by auto
  from l' assms(4) have t: "takeWhile (\<lambda>x. x \<noteq> 0x3C) (l' @ r) = l'"
    by (simp add: takeWhile_append2)
  from l' assms(4) have "dropWhile (\<lambda>x. x \<noteq> 0x3C) (l' @ r) = dropWhile (\<lambda>x. x \<noteq> 0x3C) r"
    by (simp add: dropWhile_append2)
  also have "\<dots> = r" using assms(4) by (cases r) (simp_all split: if_splits)
  finally have d: "dropWhile (\<lambda>x. x \<noteq> 0x3C) (l' @ r) = r" .
  from assms(3) l have "decodeReferences (c # l') = c # l'"
    using decodeReferences_plain [of l] by simp
  with c t d show ?thesis unfolding l by simp
qed

lemma tokenize_br: "tokenize (js ''<br>'' @ r) = StartTag (js ''br'') # tokenize r"
  by (simp add: js_def tagToken_def tagName_def asciiLower_def)

lemma tokenize_open:
  "tokenize (js ''<p style=\"text-align:center;\">'' @ r) = StartTag (js ''p'') # tokenize r"
  by (simp add: js_def tagToken_def tagName_def asciiLower_def)

lemma tokenize_close: "tokenize (js ''</p>'') = [EndTag (js ''p'')]"
  by (simp add: js_def tagToken_def tagName_def asciiLower_def)



lemma tokenize_lines:
  "ls \<noteq> [] \<Longrightarrow> list_all plainLine ls \<Longrightarrow> takeWhile (\<lambda>x. x \<noteq> 0x3C) r = [] \<Longrightarrow>
   tokenize (joinWith (js ''<br>'') ls @ r) = lineTokens ls @ tokenize r"
proof (induction ls rule: induct_list012)
  case 1
  then show ?case by simp
next
  case (2 l)
  then show ?case by (simp add: plainLine_def tokenize_text)
next
  case (3 l m ls)
  then have "plainLine l" and rest: "list_all plainLine (m # ls)" by simp_all
  then have l: "l \<noteq> []" "0x3C \<notin> set l" "0x26 \<notin> set l"
    by (simp_all add: plainLine_def)
  have "takeWhile (\<lambda>x. x \<noteq> 0x3C) (js ''<br>'' @ joinWith (js ''<br>'') (m # ls) @ r) = []"
    by (simp add: js_def)
  from tokenize_text [OF l this] "3.IH"(2) [OF _ rest "3.prems"(3)]
  show ?case by (simp add: tokenize_br)
qed

lemma build_br:
  "build cur stack (StartTag (js ''br'') # ts) = build (Element (js ''br'') [] # cur) stack ts"
  by (simp add: voidElements_def js_def)

lemma build_lines:
  "build cur stack (lineTokens ls @ ts) = build (rev (breakLines ls) @ cur) stack ts"
proof (induction ls arbitrary: cur rule: induct_list012)
  case 1
  show ?case by simp
next
  case (2 l)
  show ?case by simp
next
  case (3 l m ls)
  have "build cur stack (lineTokens (l # m # ls) @ ts) =
        build (Element (js ''br'') [] # Text l # cur) stack (lineTokens (m # ls) @ ts)"
    by (simp add: build_br del: build.simps(3))
  also have "\<dots> = build (rev (breakLines (m # ls)) @ Element (js ''br'') [] # Text l # cur) stack ts"
    by (rule "3.IH"(2))
  finally show ?case by simp
qed

lemma build_open:
  "build [] [] (StartTag (js ''p'') # ts) = build [] [(js ''p'', [])] ts"
  by (simp add: voidElements_def js_def)

lemma parse_fragment:
  assumes "ls \<noteq> []" and "list_all plainLine ls"
  shows "parseHTML (centeredParagraph ls) = [Element (js ''p'') (breakLines ls)]"
proof -
  have "takeWhile (\<lambda>x. x \<noteq> 0x3C) (js ''</p>'') = []" by (simp add: js_def)
  from tokenize_lines [OF assms this]
  have "tokenize (centeredParagraph ls) =
        StartTag (js ''p'') # lineTokens ls @ [EndTag (js ''p'')]"
    by (simp add: centeredParagraph_def tokenize_open tokenize_close)
  then have "parseHTML (centeredParagraph ls) =
        build [] [(js ''p'', [])] (lineTokens ls @ [EndTag (js ''p'')])"
    by (simp only: parseHTML_def build_open)
  also have "\<dots> = build (rev (breakLines ls) @ []) [(js ''p'', [])] [EndTag (js ''p'')]"
    by (rule build_lines)
  also have "\<dots> = [Element (js ''p'') (breakLines ls)]" by simp
  finally show ?thesis .
qed

lemma textWithBreaks_breakLines:
  "concat (map textWithBreaks (breakLines ls)) = joinWith [LF] ls"
  by (induction ls rule: induct_list012) simp_all

lemma no_p_breakLines: "\<not> list_ex (hasElement (js ''p'')) (breakLines ls)"
  by (induction ls rule: induct_list012) (simp_all add: br_not_p)

lemma plainParagraph_fragment:
  assumes "ls \<noteq> []" and "list_all cleanLine ls"
  shows "plainParagraph (Element (js ''p'') (breakLines ls))"
proof -
  from joinWith_clean_hd [OF assms(2,1)] joinWith_clean_ends [OF assms(2)]
  have "joinWith [LF] ls \<noteq> []" "\<not> startsWithWhiteSpace (joinWith [LF] ls)" by simp_all
  then have "\<not> list_all isWhiteSpace (joinWith [LF] ls)"
    by (cases "joinWith [LF] ls") simp_all
  then show ?thesis
    by (simp add: plainParagraph_def no_p_breakLines br_not_p textWithBreaks_breakLines
          isEmptyContent_iff)
qed

lemma htmlToText_fragment:
  assumes "ls \<noteq> []" and "list_all cleanLine ls" and "list_all plainLine ls"
  shows "htmlToText browser (Str (centeredParagraph ls)) = replaceNbsp (joinWith [LF] ls)"
proof -
  have ne: "centeredParagraph ls \<noteq> []" using centeredParagraph_visible by simp
  have "textContent (removeEmptyParagraphs (insertAfterP
          (map replaceBr [Element (js ''p'') (breakLines ls)]))) =
        joinWith [LF] (map textWithBreaks [Element (js ''p'') (breakLines ls)])"
    by (rule paragraphs_joined) (simp add: plainParagraph_fragment [OF assms(1,2)])
  also have "\<dots> = joinWith [LF] ls"
    by (simp add: br_not_p textWithBreaks_breakLines)
  finally have "textContent (removeEmptyParagraphs (processLineBreaks
          (parseHTML (centeredParagraph ls)))) = joinWith [LF] ls"
    by (simp only: parse_fragment [OF assms(1,3)] processLineBreaks_def)
  moreover have "parseFragment browser = parseHTML" by (simp add: browser_def)
  moreover have "extractText browser = textContent"
    using extractText_browser [of parseHTML] by (auto simp: browser_def)
  ultimately show ?thesis
    using ne cleanupText_clean_lines [OF assms(2)] by simp
qed


lemma cleanedLines_chars: "l \<in> set (cleanedLines p) \<Longrightarrow> set l \<subseteq> set p"
proof -
  assume "l \<in> set (cleanedLines p)"
  then obtain l0 where l0: "l0 \<in> set (splitNL [] p)" "l = trim l0"
    by (auto simp: cleanedLines_def)
  from l0(1) splitNL_chars [of p] have "set l0 \<subseteq> set p" by auto
  with set_trim [of l0] l0(2) show ?thesis by auto
qed

lemma cleanedLines_plain:
  assumes "list_all plainChar p"
  shows "list_all plainLine (cleanedLines p)"
proof -
  have "plainLine l" if "l \<in> set (cleanedLines p)" for l
  proof -
    from that have "l \<noteq> []" by (auto simp: cleanedLines_def)
    moreover from cleanedLines_chars [OF that] assms have "\<forall>c\<in>set l. plainChar c"
      by (auto simp: list_all_iff)
    ultimately show ?thesis by (auto simp: plainLine_def plainChar_def)
  qed
  then show ?thesis by (simp add: list_all_iff)
qed

lemma cleanedLines_whitespace:
  assumes "trim p = []"
  shows "cleanedLines p = []"
proof -
  have "cleanedLines (trim p) = []" unfolding assms by (simp add: cleanedLines_def)
  then show ?thesis by (simp add: cleanedLines_trim)
qed

lemma single_paragraph_fragment:
  assumes "trim p \<noteq> []" and "\<not> hasBlankLine (trim p)"
  shows "textToCardHTMLs (Str p) = RArray [centeredParagraph (cleanedLines p)]"
proof -
  from assms have "paragraphText (trim p)"
    by (simp add: paragraphText_def trim_no_start trim_no_end)
  from sections_of_texts [OF this, of "[]"]
  have "sectionsFrom [] p = [trim p]" by simp
  moreover from assms(1) have "p \<noteq> []" by auto
  ultimately show ?thesis
    by (simp add: sectionsFrom_def toCardHTML_centered cleanedLines_trim
          del: length_greater_0_conv)
qed

text \<open>
  C1, as the code has it. For a text \<open>p\<close> of one paragraph (trimmed, it has no blank line
  inside) that holds none of \<open><\<close>, \<open>>\<close>, \<open>&\<close>, NUL and CR, \<open>htmlToText\<close> of the first
  fragment of \<open>textToCardHTMLs(p)\<close> is \<open>p\<close> line for line, each line trimmed and the blank
  lines left out, with every non-breaking space inside a line replaced by a space.
\<close>

theorem round_trip_single_paragraph:
  "list_all plainChar p \<and> \<not> hasBlankLine (trim p) \<longrightarrow>
   htmlToText browser (firstOf (textToCardHTMLs (Str p))) =
     replaceNbsp (joinWith [LF] (cleanedLines p))"
proof
  assume a: "list_all plainChar p \<and> \<not> hasBlankLine (trim p)"
  show "htmlToText browser (firstOf (textToCardHTMLs (Str p))) =
     replaceNbsp (joinWith [LF] (cleanedLines p))"
  proof (cases "trim p = []")
    case True
    then have "filter (\<lambda>section. length section > 0) (map trim (splitParagraphs [] p)) = []"
      using no_sections_no_fragments [OF whitespace_sections_trim_empty, of p]
      by (simp add: trim_eq_Nil_iff)
    then have "firstOf (textToCardHTMLs (Str p)) = Undefined"
      by (simp del: length_greater_0_conv)
    with cleanedLines_whitespace [OF True] show ?thesis by (simp add: replaceNbsp_def)
  next
    case False
    from False have 1: "cleanedLines p \<noteq> []" by (rule cleanedLines_not_Nil)
    have 2: "list_all cleanLine (cleanedLines p)"
      by (simp add: list_all_iff cleanedLines_clean)
    from a have 3: "list_all plainLine (cleanedLines p)" by (simp add: cleanedLines_plain)
    from a single_paragraph_fragment [OF False]
    have "firstOf (textToCardHTMLs (Str p)) = Str (centeredParagraph (cleanedLines p))"
      by (simp del: textToCardHTMLs.simps)
    with htmlToText_fragment [OF 1 2 3] show ?thesis by (simp del: htmlToText.simps)
  qed
qed

theorem round_trip_single_paragraph_witness:
  "list_all plainChar (js ''  Hello '' @ [LF] @ js '' wide'' @ [NBSP] @ js ''world  '') \<and>
   \<not> hasBlankLine (trim (js ''  Hello '' @ [LF] @ js '' wide'' @ [NBSP] @ js ''world  '')) \<and>
   htmlToText browser (firstOf (textToCardHTMLs
     (Str (js ''  Hello '' @ [LF] @ js '' wide'' @ [NBSP] @ js ''world  '')))) =
     js ''Hello'' @ [LF] @ js ''wide world''"
proof -
  let ?p = "js ''  Hello '' @ [LF] @ js '' wide'' @ [NBSP] @ js ''world  ''"
  have a: "list_all plainChar ?p" by (simp add: literals plainChar_def)
  have b: "\<not> hasBlankLine (trim ?p)" by (simp add: literals trim_def isWhiteSpace_def)
  have c: "replaceNbsp (joinWith [LF] (cleanedLines ?p)) = js ''Hello'' @ [LF] @ js ''wide world''"
    by (simp add: literals replaceNbsp_def cleanedLines_def trim_def isWhiteSpace_def)
  from round_trip_single_paragraph [of ?p] a b c
  show ?thesis by (simp del: htmlToText.simps textToCardHTMLs.simps)
qed

text \<open>
  C1, as it is stated, fails for a paragraph with a non-breaking space inside a line:
  \<open>cleanupText\<close> turns it into a space, so the text that comes back is not the line.
\<close>

theorem round_trip_nbsp_counterexample:
  "list_all plainChar (js ''a'' @ [NBSP] @ js ''b'') \<and>
   \<not> hasBlankLine (trim (js ''a'' @ [NBSP] @ js ''b'')) \<and>
   textToCardHTMLs (Str (js ''a'' @ [NBSP] @ js ''b'')) =
     RArray [js ''<p style=\"text-align:center;\">a'' @ [NBSP] @ js ''b</p>''] \<and>
   htmlToText browser (firstOf (textToCardHTMLs (Str (js ''a'' @ [NBSP] @ js ''b'')))) =
     js ''a b'' \<and>
   joinWith [LF] (cleanedLines (js ''a'' @ [NBSP] @ js ''b'')) = js ''a'' @ [NBSP] @ js ''b'' \<and>
   htmlToText browser (firstOf (textToCardHTMLs (Str (js ''a'' @ [NBSP] @ js ''b'')))) \<noteq>
     joinWith [LF] (cleanedLines (js ''a'' @ [NBSP] @ js ''b''))"
proof -
  have a: "textToCardHTMLs (Str (js ''a'' @ [NBSP] @ js ''b'')) =
     RArray [js ''<p style=\"text-align:center;\">a'' @ [NBSP] @ js ''b</p>'']"
    by (simp add: literals toCardHTML_def cleanedLines_def trim_def isWhiteSpace_def
          matchSeparator_def)
  have b: "htmlToText browser (Str (js ''<p style=\"text-align:center;\">a'' @ [NBSP] @ js ''b</p>'')) =
     js ''a b''"
    by (simp add: literals browser_defs htmlToText_defs)
  have c: "joinWith [LF] (cleanedLines (js ''a'' @ [NBSP] @ js ''b'')) = js ''a'' @ [NBSP] @ js ''b''"
    by (simp add: literals cleanedLines_def trim_def isWhiteSpace_def)
  have d: "list_all plainChar (js ''a'' @ [NBSP] @ js ''b'')" by (simp add: literals plainChar_def)
  have e: "\<not> hasBlankLine (trim (js ''a'' @ [NBSP] @ js ''b''))"
    by (simp add: literals trim_def isWhiteSpace_def)
  have f: "js ''a b'' \<noteq> js ''a'' @ [NBSP] @ js ''b''" by (simp add: literals)
  show ?thesis unfolding a c using b d e f by (simp del: htmlToText.simps)
qed

end
